theory Spec2Isabelle
  imports Complex_Main
begin

section \<open>Calendar days and instants of the host library\<close>

text \<open>
  The jobs compute with Python's \<open>datetime\<close> module. A \<open>date\<close> is modelled by its
  proleptic Gregorian ordinal (\<open>date.toordinal()\<close>: day 1 is 0001-01-01, the last day
  9999-12-31 is 3652059), and a \<open>datetime\<close> by the number of microseconds since
  0001-01-01T00:00:00 of its own clock face. Arithmetic that leaves the range of the
  type raises \<open>OverflowError\<close> in Python; the model returns it as a value.
\<close>

datatype error =
    OverflowError
  | TypeError
  | ValueError
  | KeyError string
  | ClientError
  | StoreError

type_synonym date = int
type_synonym instant = int

definition MAXORDINAL :: int where
  "MAXORDINAL = 3652059"

definition US_PER_MINUTE :: int where
  "US_PER_MINUTE = 60000000"

definition US_PER_HOUR :: int where
  "US_PER_HOUR = 3600000000"

definition US_PER_DAY :: int where
  "US_PER_DAY = 86400000000"

definition date_ok :: "date \<Rightarrow> bool" where
  "date_ok d = (1 \<le> d \<and> d \<le> MAXORDINAL)"

definition instant_ok :: "instant \<Rightarrow> bool" where
  "instant_ok t = (0 \<le> t \<and> t < MAXORDINAL * US_PER_DAY)"

text \<open>\<open>date - timedelta(days=n)\<close> and \<open>datetime + timedelta\<close>, range-checked.\<close>

definition date_sub :: "date \<Rightarrow> int \<Rightarrow> error + date" where
  "date_sub d n = (if date_ok (d - n) then Inr (d - n) else Inl OverflowError)"

definition datetime_add :: "instant \<Rightarrow> int \<Rightarrow> error + instant" where
  "datetime_add t delta = (if instant_ok (t + delta) then Inr (t + delta) else Inl OverflowError)"

text \<open>\<open>datetime.combine(day, time(0, 0))\<close>: midnight of the day, and \<open>datetime.date()\<close>.\<close>

definition combine_midnight :: "date \<Rightarrow> instant" where
  "combine_midnight d = (d - 1) * US_PER_DAY"

definition date_of :: "instant \<Rightarrow> date" where
  "date_of t = t div US_PER_DAY + 1"

subsection \<open>Ordinal to year, month, day\<close>

definition is_leap :: "int \<Rightarrow> bool" where
  "is_leap year = (year mod 4 = 0 \<and> (year mod 100 \<noteq> 0 \<or> year mod 400 = 0))"

definition DAYS_IN_MONTH :: "int list" where
  "DAYS_IN_MONTH = [-1, 31, 28, 31, 30, 31, 30, 31, 31, 30, 31, 30, 31]"

definition DAYS_BEFORE_MONTH :: "int list" where
  "DAYS_BEFORE_MONTH = [-1, 0, 31, 59, 90, 120, 151, 181, 212, 243, 273, 304, 334]"

definition days_before_year :: "int \<Rightarrow> int" where
  "days_before_year year =
     (let y = year - 1 in y * 365 + y div 4 - y div 100 + y div 400)"

definition days_before_month :: "int \<Rightarrow> int \<Rightarrow> int" where
  "days_before_month year month =
     DAYS_BEFORE_MONTH ! nat month + (if month > 2 \<and> is_leap year then 1 else 0)"

definition ymd2ord :: "int \<Rightarrow> int \<Rightarrow> int \<Rightarrow> date" where
  "ymd2ord year month day = days_before_year year + days_before_month year month + day"

definition ord2ymd :: "date \<Rightarrow> int \<times> int \<times> int" where
  "ord2ymd n0 =
     (let n = n0 - 1;
          n400 = n div 146097; n = n mod 146097;
          year = n400 * 400 + 1;
          n100 = n div 36524; n = n mod 36524;
          n4 = n div 1461; n = n mod 1461;
          n1 = n div 365; n = n mod 365;
          year = year + n100 * 100 + n4 * 4 + n1
      in if n1 = 4 \<or> n100 = 4 then (year - 1, 12, 31)
         else
           let leapyear = (n1 = 3 \<and> (n4 \<noteq> 24 \<or> n100 = 3));
               month = (n + 50) div 32;
               preceding = DAYS_BEFORE_MONTH ! nat month
                             + (if month > 2 \<and> leapyear then 1 else 0)
           in if preceding > n
              then let month = month - 1;
                       preceding = preceding
                         - (DAYS_IN_MONTH ! nat month + (if month = 2 \<and> leapyear then 1 else 0))
                   in (year, month, n - preceding + 1)
              else (year, month, n - preceding + 1))"

text \<open>
  The last part of \<open>ord2ymd\<close>, from the day of the year \<open>n\<close> (counted from 0) to the
  month and the day of the month, as a function of its own.
\<close>

definition month_day :: "int \<Rightarrow> bool \<Rightarrow> int \<times> int" where
  "month_day n leapyear =
     (let month = (n + 50) div 32;
          preceding = DAYS_BEFORE_MONTH ! nat month
                             + (if month > 2 \<and> leapyear then 1 else 0)
      in if preceding > n
         then let month = month - 1;
                  preceding = preceding
                         - (DAYS_IN_MONTH ! nat month + (if month = 2 \<and> leapyear then 1 else 0))
              in (month, n - preceding + 1)
         else (month, n - preceding + 1))"

subsection \<open>ISO 8601 text\<close>

text \<open>
  \<open>"%04d" % n\<close> and \<open>"%02d" % n\<close> on the fields of a valid date or time, which never
  have more digits than the width: \<open>zdec k n\<close> is the \<open>k\<close> low decimal digits of \<open>n\<close>.
\<close>

definition digit_char :: "nat \<Rightarrow> char" where
  "digit_char d = ''0123456789'' ! d"

fun zdec :: "nat \<Rightarrow> nat \<Rightarrow> string" where
  "zdec 0 n = []"
| "zdec (Suc k) n = zdec k (n div 10) @ [digit_char (n mod 10)]"

definition date_isoformat :: "date \<Rightarrow> string" where
  "date_isoformat d =
     (case ord2ymd d of (y, m, dd) \<Rightarrow>
        zdec 4 (nat y) @ ''-'' @ zdec 2 (nat m) @ ''-'' @ zdec 2 (nat dd))"

text \<open>
  \<open>datetime.isoformat()\<close> of a naive clock face: date, \<open>T\<close>, time of day, and the
  microseconds only when they are not zero. An aware UTC datetime appends \<open>+00:00\<close>.
\<close>

definition naive_isoformat :: "instant \<Rightarrow> string" where
  "naive_isoformat t =
     (let r = t mod US_PER_DAY;
          hh = r div US_PER_HOUR;
          mm = (r mod US_PER_HOUR) div US_PER_MINUTE;
          ss = (r mod US_PER_MINUTE) div 1000000;
          us = r mod 1000000
      in date_isoformat (date_of t) @ ''T'' @ zdec 2 (nat hh) @ '':'' @ zdec 2 (nat mm)
           @ '':'' @ zdec 2 (nat ss) @ (if us \<noteq> 0 then ''.'' @ zdec 6 (nat us) else []))"

definition utc_isoformat :: "instant \<Rightarrow> string" where
  "utc_isoformat t = naive_isoformat t @ ''+00:00''"

section \<open>Decoded JSON and the host language's conversions\<close>

text \<open>
  \<open>r.json()\<close> yields any JSON value. Floats are values of a type \<open>'f\<close> the model does
  not look into. An object is the list of the decoded dictionary's items in iteration
  order (one entry per key); strings are iterated character by character.
\<close>

datatype 'f json =
    JNull
  | JBool bool
  | JInt int
  | JFloat 'f
  | JStr string
  | JArr "'f json list"
  | JObj "(string \<times> 'f json) list"

datatype fetch_exn = ConnectionError | Timeout | HTTPError nat | JSONDecodeError

text \<open>
  What \<open>requests.get\<close> returns when it does not raise: the status code and the body as
  \<open>r.json()\<close> decodes it (\<open>None\<close> when the body is not JSON and \<open>r.json()\<close> raises). And
  the outcome of the \<open>try\<close> block of \<open>build_rows\<close>: the exception caught, or \<open>raw\<close>.
\<close>

record 'f response =
  status_code :: nat
  json_body :: "'f json option"

datatype 'f fetch = Failed fetch_exn | Body "'f json"

record 'f row =
  location_id :: string
  location_name :: string
  reading_value :: "'f option"
  reading_datetime :: string
  created_at :: string

record 'f upsert_call =
  table :: string
  payload :: "'f row list"
  on_conflict :: string

datatype 'f resp_data = DataList "'f row list" | DataOther

text \<open>
  Everything outside the program is a parameter: the HTTP client, the clock, the store
  client, the time zone database's entry for \<open>Asia/Singapore\<close> (\<open>utcoffset\<close> of a
  clock face with \<open>fold = 0\<close>, and \<open>fromutc\<close>), and the builtins \<open>float()\<close> and
  \<open>int()\<close> (\<open>None\<close> where they raise). The external systems share a state \<open>'x\<close>.
\<close>

record ('x, 'f) env =
  requests_get :: "'x \<Rightarrow> string \<Rightarrow> (fetch_exn + 'f response) \<times> 'x"
  utc_now :: "'x \<Rightarrow> instant \<times> 'x"
  sleep :: "'x \<Rightarrow> 'x"
  execute :: "'x \<Rightarrow> 'f upsert_call \<Rightarrow> (error + 'f resp_data) \<times> 'x"
  create_client :: "string \<Rightarrow> string \<Rightarrow> error option"
  utcoffset :: "instant \<Rightarrow> int"
  fromutc :: "instant \<Rightarrow> instant"
  float_is_zero :: "'f \<Rightarrow> bool"
  float_of_int :: "int \<Rightarrow> 'f option"
  float_of_str :: "string \<Rightarrow> 'f option"
  int_of_str :: "string \<Rightarrow> int option"

text \<open>
  The state the program acts on: the external systems, the warnings of the logger
  \<open>supabase-common\<close>, and the store calls issued so far with their outcomes.
\<close>

record ('x, 'f) world =
  ext :: 'x
  warnings :: "(string \<times> date \<times> fetch_exn) list"
  calls :: "('f upsert_call \<times> (error + 'f resp_data)) list"

record location =
  ID :: string
  Name :: string

definition SGT_astimezone_utc :: "('x, 'f) env \<Rightarrow> instant \<Rightarrow> error + instant" where
  "SGT_astimezone_utc env ts_sgt = datetime_add ts_sgt (- utcoffset env ts_sgt)"

fun truthy :: "('x, 'f) env \<Rightarrow> 'f json \<Rightarrow> bool" where
  "truthy env JNull = False"
| "truthy env (JBool b) = b"
| "truthy env (JInt n) = (n \<noteq> 0)"
| "truthy env (JFloat f) = (\<not> float_is_zero env f)"
| "truthy env (JStr s) = (s \<noteq> [])"
| "truthy env (JArr xs) = (xs \<noteq> [])"
| "truthy env (JObj kvs) = (kvs \<noteq> [])"

text \<open>What \<open>enumerate(raw)\<close> iterates over; a number or a boolean is not iterable.\<close>

fun iter_items :: "'f json \<Rightarrow> error + 'f json list" where
  "iter_items (JArr xs) = Inr xs"
| "iter_items (JStr s) = Inr (map (\<lambda>c. JStr [c]) s)"
| "iter_items (JObj kvs) = Inr (map (\<lambda>kv. JStr (fst kv)) kvs)"
| "iter_items JNull = Inl TypeError"
| "iter_items (JBool b) = Inl TypeError"
| "iter_items (JInt n) = Inl TypeError"
| "iter_items (JFloat f) = Inl TypeError"

fun py_float :: "('x, 'f) env \<Rightarrow> 'f json \<Rightarrow> 'f option" where
  "py_float env (JFloat f) = Some f"
| "py_float env (JInt n) = float_of_int env n"
| "py_float env (JBool b) = float_of_int env (if b then 1 else 0)"
| "py_float env (JStr s) = float_of_str env s"
| "py_float env JNull = None"
| "py_float env (JArr xs) = None"
| "py_float env (JObj kvs) = None"

text \<open>
  Lines 110 to 115 of \<open>build_rows\<close>: \<open>item.get("reading")\<close> raises on anything but a
  dictionary, \<open>float\<close> raises on what it cannot convert, and every exception leaves
  \<open>value = None\<close>.
\<close>

definition reading_of :: "('x, 'f) env \<Rightarrow> 'f json \<Rightarrow> 'f option" where
  "reading_of env item =
     (case item of
        JObj kvs \<Rightarrow>
          (case map_of kvs ''reading'' of
             None \<Rightarrow> None
           | Some JNull \<Rightarrow> None
           | Some v \<Rightarrow> py_float env v)
      | _ \<Rightarrow> None)"

section \<open>Row Builder\<close>

text \<open>\<open>Response.raise_for_status()\<close>: an \<open>HTTPError\<close> for a 4xx or 5xx status.\<close>

definition raise_for_status :: "'f response \<Rightarrow> fetch_exn option" where
  "raise_for_status r =
     (if 400 \<le> status_code r \<and> status_code r < 600 then Some (HTTPError (status_code r))
      else None)"

text \<open>
  Lines 90 to 96 of \<open>build_rows\<close>: \<open>requests.get(url, timeout=30)\<close>,
  \<open>r.raise_for_status()\<close> and \<open>r.json()\<close>, with whatever one of them raises caught.
\<close>

definition try_fetch :: "('x, 'f) env \<Rightarrow> 'x \<Rightarrow> string \<Rightarrow> 'f fetch \<times> 'x" where
  "try_fetch env x url =
     (case requests_get env x url of
        (Inl e, x1) \<Rightarrow> (Failed e, x1)
      | (Inr r, x1) \<Rightarrow>
          (case raise_for_status r of
             Some e \<Rightarrow> (Failed e, x1)
           | None \<Rightarrow>
               (case json_body r of
                  None \<Rightarrow> (Failed JSONDecodeError, x1)
                | Some raw \<Rightarrow> (Body raw, x1))))"

text \<open>The loop of \<open>build_rows\<close> (lines 105 to 122) from index \<open>i\<close> on.\<close>

fun rows_loop ::
  "('x, 'f) env \<Rightarrow> location \<Rightarrow> instant \<Rightarrow> instant \<Rightarrow> nat \<Rightarrow> 'f json list \<Rightarrow> 'x
     \<Rightarrow> (error + 'f row list) \<times> 'x" where
  "rows_loop env loc base_sgt now_plus_1h_utc i [] x = (Inr [], x)"
| "rows_loop env loc base_sgt now_plus_1h_utc i (item # rest) x =
     (case datetime_add base_sgt (int i * US_PER_MINUTE) of
        Inl e \<Rightarrow> (Inl e, x)
      | Inr ts_sgt \<Rightarrow>
          (case SGT_astimezone_utc env ts_sgt of
             Inl e \<Rightarrow> (Inl e, x)
           | Inr ts_utc \<Rightarrow>
               if ts_utc > now_plus_1h_utc
               then rows_loop env loc base_sgt now_plus_1h_utc (Suc i) rest x
               else
                 (case utc_now env x of
                    (stamp, x1) \<Rightarrow>
                      (case rows_loop env loc base_sgt now_plus_1h_utc (Suc i) rest x1 of
                         (Inl e, x2) \<Rightarrow> (Inl e, x2)
                       | (Inr rows, x2) \<Rightarrow>
                           (Inr (\<lparr>location_id = ID loc,
                                   location_name = Name loc,
                                   reading_value = reading_of env item,
                                   reading_datetime = utc_isoformat ts_utc,
                                   created_at = utc_isoformat stamp\<rparr> # rows), x2)))))"

definition build_rows ::
  "('x, 'f) env \<Rightarrow> string \<Rightarrow> location \<Rightarrow> date \<Rightarrow> ('x, 'f) world
     \<Rightarrow> (error + 'f row list) \<times> ('x, 'f) world" where
  "build_rows env api_base loc day w =
     (let url = api_base @ ''/'' @ ID loc @ ''?start='' @ date_isoformat day in
      case try_fetch env (ext w) url of
        (Failed e, x1) \<Rightarrow>
          (Inr [], w\<lparr>ext := x1, warnings := warnings w @ [(ID loc, day, e)]\<rparr>)
      | (Body raw, x1) \<Rightarrow>
          if \<not> truthy env raw then (Inr [], w\<lparr>ext := x1\<rparr>)
          else
            let base_sgt = combine_midnight day in
            (case utc_now env x1 of
               (now, x2) \<Rightarrow>
                 (case datetime_add now US_PER_HOUR of
                    Inl e \<Rightarrow> (Inl e, w\<lparr>ext := x2\<rparr>)
                  | Inr now_plus_1h_utc \<Rightarrow>
                      (case iter_items raw of
                         Inl e \<Rightarrow> (Inl e, w\<lparr>ext := x2\<rparr>)
                       | Inr items \<Rightarrow>
                           (case rows_loop env loc base_sgt now_plus_1h_utc 0 items x2 of
                              (r, x3) \<Rightarrow> (r, w\<lparr>ext := x3\<rparr>))))))"

section \<open>Upsert Writer\<close>

definition CHUNK :: nat where
  "CHUNK = 1000"

text \<open>
  The loop \<open>for i in range(0, len(rows), CHUNK)\<close> from offset \<open>i\<close> on. An exception of
  the store client ends the loop and leaves the earlier chunks written.
\<close>

function upsert_loop ::
  "('x, 'f) env \<Rightarrow> string \<Rightarrow> 'f row list \<Rightarrow> nat \<Rightarrow> nat \<Rightarrow> ('x, 'f) world
     \<Rightarrow> (error + nat) \<times> ('x, 'f) world" where
  "upsert_loop env tbl rows i inserted w =
     (if i < length rows then
        let chunk = take CHUNK (drop i rows);
            call = \<lparr>table = tbl, payload = chunk,
                    on_conflict = ''location_id,reading_datetime''\<rparr>
        in (case execute env (ext w) call of
              (Inl e, x1) \<Rightarrow> (Inl e, w\<lparr>ext := x1, calls := calls w @ [(call, Inl e)]\<rparr>)
            | (Inr data, x1) \<Rightarrow>
                upsert_loop env tbl rows (i + CHUNK)
                  (case data of DataList d \<Rightarrow> inserted + length d | DataOther \<Rightarrow> inserted)
                  (w\<lparr>ext := x1, calls := calls w @ [(call, Inr data)]\<rparr>))
      else (Inr inserted, w))"
  by pat_completeness auto
termination
  by (relation "measure (\<lambda>(env, tbl, rows, i, inserted, w). length rows - i)")
    (auto simp: CHUNK_def)

definition upsert_rows ::
  "('x, 'f) env \<Rightarrow> string \<Rightarrow> 'f row list \<Rightarrow> ('x, 'f) world \<Rightarrow> (error + nat) \<times> ('x, 'f) world" where
  "upsert_rows env tbl rows w =
     (if rows = [] then (Inr 0, w) else upsert_loop env tbl rows 0 0 w)"

section \<open>Day Walker\<close>

definition API_DEFAULT :: string where
  "API_DEFAULT = ''http://139.59.223.231:3000/api/meter-sound''"

definition LOCATIONS :: "location list" where
  "LOCATIONS =
     [\<lparr>ID = ''15490'', Name = ''Singapore Sports School''\<rparr>,
      \<lparr>ID = ''16034'', Name = ''BLK 120 Serangoon North Ave 1''\<rparr>,
      \<lparr>ID = ''16041'', Name = ''BLK 838 Hougang Central''\<rparr>,
      \<lparr>ID = ''14542'', Name = ''BLK 558 Jurong West Street 42''\<rparr>,
      \<lparr>ID = ''15725'', Name = ''Jurong Safra, Block C''\<rparr>,
      \<lparr>ID = ''16032'', Name = ''AMA KENG SITE''\<rparr>,
      \<lparr>ID = ''16045'', Name = ''BLK 19 Balam Road''\<rparr>,
      \<lparr>ID = ''15820'', Name = ''Norcom II Tower 4''\<rparr>,
      \<lparr>ID = ''15821'', Name = ''Blk 444 Choa Chu Kang Avenue 4''\<rparr>,
      \<lparr>ID = ''15999'', Name = ''BLK 654B Punggol Drive''\<rparr>,
      \<lparr>ID = ''16026'', Name = ''BLK 132B Tengah Garden Avenue''\<rparr>,
      \<lparr>ID = ''16004'', Name = ''BLK 206A Punggol Place''\<rparr>,
      \<lparr>ID = ''16005'', Name = ''Woodlands 11''\<rparr>]"

text \<open>
  Lines 57 to 60 of the backfill job (40 to 44 of the daily job): one \<open>build_rows\<close> per
  device, each followed by the short sleep, the results concatenated in order.
\<close>

fun collect_rows ::
  "('x, 'f) env \<Rightarrow> string \<Rightarrow> location list \<Rightarrow> date \<Rightarrow> ('x, 'f) world
     \<Rightarrow> (error + 'f row list) \<times> ('x, 'f) world" where
  "collect_rows env api_base [] day w = (Inr [], w)"
| "collect_rows env api_base (loc # locs) day w =
     (case build_rows env api_base loc day w of
        (Inl e, w1) \<Rightarrow> (Inl e, w1)
      | (Inr rows, w1) \<Rightarrow>
          (case collect_rows env api_base locs day (w1\<lparr>ext := sleep env (ext w1)\<rparr>) of
             (Inl e, w2) \<Rightarrow> (Inl e, w2)
           | (Inr rest_rows, w2) \<Rightarrow> (Inr (rows @ rest_rows), w2)))"

text \<open>One day of either job: build for every device, then one \<open>upsert_rows\<close>.\<close>

definition day_step ::
  "('x, 'f) env \<Rightarrow> string \<Rightarrow> string \<Rightarrow> date \<Rightarrow> ('x, 'f) world
     \<Rightarrow> (error + nat) \<times> ('x, 'f) world" where
  "day_step env api_base tbl day w =
     (case collect_rows env api_base LOCATIONS day w of
        (Inl e, w1) \<Rightarrow> (Inl e, w1)
      | (Inr day_rows, w1) \<Rightarrow> upsert_rows env tbl day_rows w1)"

text \<open>The lines the logger \<open>supabase-backfill-all\<close> writes, with their arguments.\<close>

datatype backfill_log =
    LogStarting date date int
  | LogNoData date nat int
  | LogUpserted date nat
  | LogStopping
  | LogComplete nat nat

record loop_state =
  cur :: date
  empty_streak :: nat
  total_affected :: nat
  days_processed :: nat
  out :: "backfill_log list"

text \<open>
  The \<open>while\<close> loop of the backfill job (lines 55 to 75) over any day step. It returns
  the exception that ended it, if any, the loop's variables and the state the day steps
  left. The last \<open>cur - timedelta(days=1)\<close> is range-checked like every date.
\<close>

function walk ::
  "(date \<Rightarrow> 'w \<Rightarrow> (error + nat) \<times> 'w) \<Rightarrow> int \<Rightarrow> date \<Rightarrow> loop_state \<Rightarrow> 'w
     \<Rightarrow> error option \<times> loop_state \<times> 'w" where
  "walk step empty_chunks_to_stop stop_before s w =
     (if cur s \<ge> stop_before then
        let s1 = s\<lparr>days_processed := days_processed s + 1\<rparr> in
        (case step (cur s) w of
           (Inl e, w1) \<Rightarrow> (Some e, s1, w1)
         | (Inr affected, w1) \<Rightarrow>
             let s2 = s1\<lparr>total_affected := total_affected s1 + affected\<rparr>;
                 s3 = (if affected = 0
                       then s2\<lparr>empty_streak := empty_streak s2 + 1,
                               out := out s2 @ [LogNoData (cur s2) (empty_streak s2 + 1)
                                                  empty_chunks_to_stop]\<rparr>
                       else s2\<lparr>empty_streak := 0,
                               out := out s2 @ [LogUpserted (cur s2) affected]\<rparr>)
             in if int (empty_streak s3) \<ge> empty_chunks_to_stop
                then (None, s3\<lparr>out := out s3 @ [LogStopping]\<rparr>, w1)
                else (case date_sub (cur s3) 1 of
                        Inl e \<Rightarrow> (Some e, s3, w1)
                      | Inr d \<Rightarrow> walk step empty_chunks_to_stop stop_before (s3\<lparr>cur := d\<rparr>) w1))
      else (None, s, w))"
  by pat_completeness auto
termination
  by (relation "measure (\<lambda>(step, t, stop_before, s, w). nat (cur s - stop_before + 1))")
    (auto simp: date_sub_def split: if_splits)

subsection \<open>Start of the backfill job\<close>

definition getenv :: "(string \<rightharpoonup> string) \<Rightarrow> string \<Rightarrow> string \<Rightarrow> string" where
  "getenv environ name dflt = (case environ name of None \<Rightarrow> dflt | Some v \<Rightarrow> v)"

definition rstrip_slash :: "string \<Rightarrow> string" where
  "rstrip_slash s = rev (dropWhile (\<lambda>c. c = CHR ''/'') (rev s))"

text \<open>Lines 37 and 38: \<open>max(1, int(os.getenv(name, default)))\<close>.\<close>

definition empty_chunks_to_stop_of :: "('x, 'f) env \<Rightarrow> (string \<rightharpoonup> string) \<Rightarrow> error + int" where
  "empty_chunks_to_stop_of env environ =
     (case int_of_str env (getenv environ ''EMPTY_CHUNKS_TO_STOP'' ''2'') of
        None \<Rightarrow> Inl ValueError
      | Some n \<Rightarrow> Inr (max 1 n))"

definition max_years_of :: "('x, 'f) env \<Rightarrow> (string \<rightharpoonup> string) \<Rightarrow> error + int" where
  "max_years_of env environ =
     (case int_of_str env (getenv environ ''BACKFILL_MAX_YEARS'' ''5'') of
        None \<Rightarrow> Inl ValueError
      | Some n \<Rightarrow> Inr (max 1 n))"

definition environ_get :: "(string \<rightharpoonup> string) \<Rightarrow> string \<Rightarrow> error + string" where
  "environ_get environ name =
     (case environ name of None \<Rightarrow> Inl (KeyError name) | Some v \<Rightarrow> Inr v)"

text \<open>\<open>datetime.now(SGT).date()\<close> and \<open>yesterday_sgt()\<close>: each reads the clock.\<close>

definition today_sgt :: "('x, 'f) env \<Rightarrow> 'x \<Rightarrow> date \<times> 'x" where
  "today_sgt env x = (case utc_now env x of (now, x1) \<Rightarrow> (date_of (fromutc env now), x1))"

definition yesterday_sgt :: "('x, 'f) env \<Rightarrow> 'x \<Rightarrow> (error + date) \<times> 'x" where
  "yesterday_sgt env x = (case today_sgt env x of (d, x1) \<Rightarrow> (date_sub d 1, x1))"

definition initial_state :: "date \<Rightarrow> backfill_log list \<Rightarrow> loop_state" where
  "initial_state end_day lg =
     \<lparr>cur = end_day, empty_streak = 0, total_affected = 0, days_processed = 0, out = lg\<rparr>"

text \<open>
  \<open>main\<close> of the backfill job. \<open>environ\<close> is the process environment after
  \<open>load_dotenv()\<close>. The result is the uncaught exception, if any, what the job's logger
  wrote, and the final state of the world.
\<close>

definition backfill_main ::
  "('x, 'f) env \<Rightarrow> (string \<rightharpoonup> string) \<Rightarrow> ('x, 'f) world
     \<Rightarrow> error option \<times> backfill_log list \<times> ('x, 'f) world" where
  "backfill_main env environ w =
     (let api_base = rstrip_slash (getenv environ ''API_BASE_URL'' API_DEFAULT);
          tbl = getenv environ ''SUPABASE_TABLE'' ''meter_readings''
      in case empty_chunks_to_stop_of env environ of
           Inl e \<Rightarrow> (Some e, [], w)
         | Inr empty_chunks_to_stop \<Rightarrow>
        (case max_years_of env environ of
           Inl e \<Rightarrow> (Some e, [], w)
         | Inr max_years \<Rightarrow>
        (case environ_get environ ''SUPABASE_URL'' of
           Inl e \<Rightarrow> (Some e, [], w)
         | Inr supabase_url \<Rightarrow>
        (case environ_get environ ''SUPABASE_ANON_KEY'' of
           Inl e \<Rightarrow> (Some e, [], w)
         | Inr supabase_key \<Rightarrow>
        (case create_client env supabase_url supabase_key of
           Some e \<Rightarrow> (Some e, [], w)
         | None \<Rightarrow>
        (case today_sgt env (ext w) of
           (today, x1) \<Rightarrow>
        (case yesterday_sgt env x1 of
           (Inl e, x2) \<Rightarrow> (Some e, [], w\<lparr>ext := x2\<rparr>)
         | (Inr end_day, x2) \<Rightarrow>
        (case date_sub today (365 * max_years) of
           Inl e \<Rightarrow> (Some e, [], w\<lparr>ext := x2\<rparr>)
         | Inr stop_before \<Rightarrow>
        (case walk (day_step env api_base tbl) empty_chunks_to_stop stop_before
                (initial_state end_day [LogStarting end_day stop_before empty_chunks_to_stop])
                (w\<lparr>ext := x2\<rparr>) of
           (Some e, s, w1) \<Rightarrow> (Some e, out s, w1)
         | (None, s, w1) \<Rightarrow>
             (None, out s @ [LogComplete (days_processed s) (total_affected s)], w1))))))))))"

section \<open>What a run processed\<close>

text \<open>
  The days a run processed, with the affected count of each, read off the job's log in
  the order of processing; and the empty streak after a sequence of affected counts.
\<close>

fun day_event :: "backfill_log \<Rightarrow> (date \<times> nat) list" where
  "day_event (LogNoData d k t) = [(d, 0)]"
| "day_event (LogUpserted d a) = [(d, a)]"
| "day_event (LogStarting e sb t) = []"
| "day_event LogStopping = []"
| "day_event (LogComplete n m) = []"

definition processed :: "backfill_log list \<Rightarrow> (date \<times> nat) list" where
  "processed lg = concat (map day_event lg)"

fun streak_after :: "nat \<Rightarrow> nat list \<Rightarrow> nat" where
  "streak_after e [] = e"
| "streak_after e (a # as) = streak_after (if a = 0 then e + 1 else 0) as"

text \<open>The loop's variables after the affected count of the current day is recorded.\<close>

definition record_day :: "int \<Rightarrow> loop_state \<Rightarrow> nat \<Rightarrow> loop_state" where
  "record_day t s affected =
     (if affected = 0
      then s\<lparr>days_processed := days_processed s + 1,
             total_affected := total_affected s + affected,
             empty_streak := empty_streak s + 1,
             out := out s @ [LogNoData (cur s) (empty_streak s + 1) t]\<rparr>
      else s\<lparr>days_processed := days_processed s + 1,
             total_affected := total_affected s + affected,
             empty_streak := 0,
             out := out s @ [LogUpserted (cur s) affected]\<rparr>)"

fun backward_from :: "date \<Rightarrow> (date \<times> nat) list \<Rightarrow> bool" where
  "backward_from c [] = True"
| "backward_from c (p # h) = (fst p = c \<and> backward_from (c - 1) h)"

fun no_early_stop :: "int \<Rightarrow> nat \<Rightarrow> nat list \<Rightarrow> bool" where
  "no_early_stop t e [] = True"
| "no_early_stop t e (a # as) =
     (as = [] \<or> (int (if a = 0 then e + 1 else 0) < t
                  \<and> no_early_stop t (if a = 0 then e + 1 else 0) as))"

text \<open>
  Day steps run one after another on a list of days, each from the state the one before
  left, up to the first that raises: their outcomes, in order, and the state left.
\<close>

fun run_days ::
  "(date \<Rightarrow> 'w \<Rightarrow> (error + nat) \<times> 'w) \<Rightarrow> date list \<Rightarrow> 'w \<Rightarrow> (error + nat) list \<times> 'w" where
  "run_days step [] w = ([], w)"
| "run_days step (d # ds) w =
     (case step d w of
        (Inl e, w1) \<Rightarrow> ([Inl e], w1)
      | (Inr a, w1) \<Rightarrow> (case run_days step ds w1 of (rs, w2) \<Rightarrow> (Inr a # rs, w2)))"

text \<open>The \<open>n\<close> days from \<open>e\<close> backward: \<open>e\<close>, \<open>e - 1\<close>, ..., \<open>e - (n - 1)\<close>.\<close>

definition days_back :: "date \<Rightarrow> nat \<Rightarrow> date list" where
  "days_back e n = map (\<lambda>i. e - int i) [0..<n]"

text \<open>The lines the loop itself writes (the first and the last line are \<open>main\<close>'s).\<close>

fun loop_event :: "backfill_log \<Rightarrow> bool" where
  "loop_event (LogNoData d k t) = True"
| "loop_event (LogUpserted d a) = True"
| "loop_event LogStopping = True"
| "loop_event (LogStarting e sb t) = False"
| "loop_event (LogComplete n m) = False"

section \<open>The instant of an entry\<close>

text \<open>
  The instant the Row Builder is meant to give entry \<open>i\<close> of the response for a day:
  the clock face at local midnight of the day plus \<open>i\<close> minutes (\<open>ts_sgt_at\<close>), and
  that clock face less the zone's offset at it, which is the instant in UTC
  (\<open>ts_utc_at\<close>). \<open>entries_in_range\<close> says that Python can represent both for each of
  the first \<open>n\<close> entries, and \<open>row_core\<close> is a record without its write time.
\<close>

definition ts_sgt_at :: "date \<Rightarrow> nat \<Rightarrow> instant" where
  "ts_sgt_at day i = combine_midnight day + int i * US_PER_MINUTE"

definition ts_utc_at :: "('x, 'f) env \<Rightarrow> date \<Rightarrow> nat \<Rightarrow> instant" where
  "ts_utc_at env day i = ts_sgt_at day i - utcoffset env (ts_sgt_at day i)"

definition entries_in_range :: "('x, 'f) env \<Rightarrow> date \<Rightarrow> nat \<Rightarrow> bool" where
  "entries_in_range env day n =
     list_all (\<lambda>i. instant_ok (ts_sgt_at day i) \<and> instant_ok (ts_utc_at env day i)) [0..<n]"

definition row_core :: "'f row \<Rightarrow> string \<times> string \<times> 'f option \<times> string" where
  "row_core r = (location_id r, location_name r, reading_value r, reading_datetime r)"

text \<open>An entry whose reading is absent, null, or not convertible by \<open>float()\<close>.\<close>

definition reading_unusable :: "('x, 'f) env \<Rightarrow> 'f json \<Rightarrow> bool" where
  "reading_unusable env item =
     (case item of
        JObj kvs \<Rightarrow>
          (case map_of kvs ''reading'' of
             None \<Rightarrow> True
           | Some v \<Rightarrow> v = JNull \<or> py_float env v = None)
      | _ \<Rightarrow> True)"

definition url_of :: "string \<Rightarrow> location \<Rightarrow> date \<Rightarrow> string" where
  "url_of api_base loc day = api_base @ ''/'' @ ID loc @ ''?start='' @ date_isoformat day"

section \<open>The partition the Upsert Writer is meant to make\<close>

text \<open>
  Consecutive chunks of \<open>CHUNK\<close> records from offset \<open>i\<close> on, as many as it takes:
  \<open>ceil((n - i) / CHUNK)\<close> of them. And how many rows a store response reports.
\<close>

definition chunks_from :: "nat \<Rightarrow> 'a list \<Rightarrow> 'a list list" where
  "chunks_from i rows =
     map (\<lambda>k. take CHUNK (drop (i + k * CHUNK) rows))
       [0..<(length rows - i + (CHUNK - 1)) div CHUNK]"

definition chunks :: "'a list \<Rightarrow> 'a list list" where
  "chunks rows = chunks_from 0 rows"

fun affected_of :: "'f resp_data \<Rightarrow> nat" where
  "affected_of (DataList d) = length d"
| "affected_of DataOther = 0"

definition upsert_call_of :: "string \<Rightarrow> 'f row list \<Rightarrow> 'f upsert_call" where
  "upsert_call_of tbl chunk =
     \<lparr>table = tbl, payload = chunk, on_conflict = ''location_id,reading_datetime''\<rparr>"

text \<open>
  What the store does with a sequence of calls made one after another, each from the
  state the one before left, up to the first that raises: the outcomes in order and the
  state left.
\<close>

fun exec_all ::
  "('x, 'f) env \<Rightarrow> 'x \<Rightarrow> 'f upsert_call list \<Rightarrow> (error + 'f resp_data) list \<times> 'x" where
  "exec_all env x [] = ([], x)"
| "exec_all env x (c # cs) =
     (case execute env x c of
        (Inl e, x1) \<Rightarrow> ([Inl e], x1)
      | (Inr d, x1) \<Rightarrow> (case exec_all env x1 cs of (rs, x2) \<Rightarrow> (Inr d # rs, x2)))"

section \<open>A scripted environment\<close>

text \<open>
  A concrete environment for running the model: the API answers by a table from URL to
  outcome, the clock stands still at \<open>now\<close>, the store accepts every call and reports
  the rows it was sent, the zone is at UTC+8 throughout, floats are rationals.
  \<open>served\<close> is what the HTTP client does for the \<open>try\<close> block to end in an outcome: it
  raises a connection error or a timeout, or returns the response with the status of
  the error, or status 200 with a body that is not JSON, or with the JSON value.
\<close>

fun served :: "'f fetch \<Rightarrow> fetch_exn + 'f response" where
  "served (Body raw) = Inr \<lparr>status_code = 200, json_body = Some raw\<rparr>"
| "served (Failed (HTTPError n)) = Inr \<lparr>status_code = n, json_body = None\<rparr>"
| "served (Failed JSONDecodeError) = Inr \<lparr>status_code = 200, json_body = None\<rparr>"
| "served (Failed ConnectionError) = Inl ConnectionError"
| "served (Failed Timeout) = Inl Timeout"

definition scripted_env :: "(string \<Rightarrow> rat fetch) \<Rightarrow> instant \<Rightarrow> (unit, rat) env" where
  "scripted_env api now =
     \<lparr>requests_get = (\<lambda>x url. (served (api url), x)),
      utc_now = (\<lambda>x. (now, x)),
      sleep = (\<lambda>x. x),
      execute = (\<lambda>x c. (Inr (DataList (payload c)), x)),
      create_client = (\<lambda>url key. None),
      utcoffset = (\<lambda>t. 8 * US_PER_HOUR),
      fromutc = (\<lambda>t. t + 8 * US_PER_HOUR),
      float_is_zero = (\<lambda>f. f = 0),
      float_of_int = (\<lambda>n. Some (of_int n)),
      float_of_str = (\<lambda>s. if s = ''41.2'' then Some (206 / 5) else None),
      int_of_str = (\<lambda>s. if s = ''0'' then Some 0 else if s = ''-3'' then Some (- 3)
                         else if s = ''2'' then Some 2 else if s = ''5'' then Some 5
                         else None)\<rparr>"

definition empty_world :: "(unit, rat) world" where
  "empty_world = \<lparr>ext = (), warnings = [], calls = []\<rparr>"

text \<open>2026-11-04T02:00:00 UTC, which is 10:00 of the same day in Singapore.\<close>

definition demo_now :: instant where
  "demo_now = combine_midnight 739924 + 2 * US_PER_HOUR"


text \<open>
  Two answers of the API. For device 15490 and day 2024-01-01: a reading, a null and a
  text that is no number. For the same device and day 2024-03-10: 91 readings.
\<close>

definition sports_school :: location where
  "sports_school = \<lparr>ID = ''15490'', Name = ''Singapore Sports School''\<rparr>"

definition new_year_items :: "rat json list" where
  "new_year_items =
     [JObj [(''reading'', JFloat (206 / 5))],
      JObj [(''reading'', JNull)],
      JObj [(''reading'', JStr ''bad'')]]"

definition new_year_api :: "string \<Rightarrow> rat fetch" where
  "new_year_api url =
     (if url = API_DEFAULT @ ''/15490?start=2024-01-01'' then Body (JArr new_year_items)
      else Failed (HTTPError 404))"

definition march_api :: "string \<Rightarrow> rat fetch" where
  "march_api url =
     (if url = API_DEFAULT @ ''/15490?start=2024-03-10''
      then Body (JArr (replicate 91 (JObj [(''reading'', JInt 50)])))
      else Failed (HTTPError 404))"

text \<open>2023-12-31T15:01:00 UTC: one hour before the second entry of 2024-01-01.\<close>

definition early_now :: instant where
  "early_now = combine_midnight 738885 + 15 * US_PER_HOUR + US_PER_MINUTE"

text \<open>
  An API that has one reading for every device and day, in an environment whose \<open>int()\<close>
  reads \<open>100\<close> and \<open>1\<close>, and a process environment that sets the threshold to 100
  and the horizon to one year.
\<close>

definition steady_api :: "string \<Rightarrow> rat fetch" where
  "steady_api url = Body (JArr [JObj [(''reading'', JInt 50)]])"

definition horizon_env :: "(unit, rat) env" where
  "horizon_env = (scripted_env steady_api demo_now)
     \<lparr>int_of_str := (\<lambda>s. if s = ''100'' then Some 100 else if s = ''1'' then Some 1 else None)\<rparr>"

definition horizon_environ :: "string \<rightharpoonup> string" where
  "horizon_environ =
     [''EMPTY_CHUNKS_TO_STOP'' \<mapsto> ''100'', ''BACKFILL_MAX_YEARS'' \<mapsto> ''1'',
      ''SUPABASE_URL'' \<mapsto> ''https://example.supabase.co'', ''SUPABASE_ANON_KEY'' \<mapsto> ''key'']"

text \<open>
  A store with a state: the records it was sent so far, in order. It accepts every call
  and reports the records of a full chunk; for a smaller one its response carries no
  list. And one record to fill batches with.
\<close>

definition demo_row :: "rat row" where
  "demo_row = \<lparr>location_id = ''15490'', location_name = ''Singapore Sports School'',
      reading_value = None, reading_datetime = ''2024-01-01T00:00:00+00:00'',
      created_at = ''2024-01-02T00:00:00+00:00''\<rparr>"

definition store_env :: "(rat row list, rat) env" where
  "store_env =
     \<lparr>requests_get = (\<lambda>x url. (Inl ConnectionError, x)),
      utc_now = (\<lambda>x. (demo_now, x)),
      sleep = (\<lambda>x. x),
      execute = (\<lambda>x c. (Inr (if length (payload c) < 1000 then DataOther
                                else DataList (payload c)), x @ payload c)),
      create_client = (\<lambda>url key. None),
      utcoffset = (\<lambda>t. 8 * US_PER_HOUR),
      fromutc = (\<lambda>t. t + 8 * US_PER_HOUR),
      float_is_zero = (\<lambda>f. f = 0),
      float_of_int = (\<lambda>n. Some (of_int n)),
      float_of_str = (\<lambda>s. None),
      int_of_str = (\<lambda>s. None)\<rparr>"

text \<open>
  A day step for a walk on its own: the state is the list of the days the step was run
  on, and the affected counts are 5 for 2026-11-03, 3 for 2026-10-31 and 0 otherwise.
\<close>

definition counting_step :: "date \<Rightarrow> date list \<Rightarrow> (error + nat) \<times> date list" where
  "counting_step d w =
     (Inr (if d = 739923 then 5 else if d = 739920 then 3 else 0), w @ [d])"

section \<open>Properties\<close>

subsection \<open>The calendar\<close>

text \<open>
  \<open>ord2ymd\<close> inverts \<open>ymd2ord\<close> on the ordinals of the type \<open>date\<close>, and yields a year
  of at most four digits, a month and a day of the month.
\<close>

lemma month_day_ok:
  assumes "0 \<le> n" "n < 365 + (if leapyear then 1 else 0)" "month_day n leapyear = (m, dd)"
  shows "1 \<le> m \<and> m \<le> 12 \<and> 1 \<le> dd \<and> dd \<le> 31
       \<and> DAYS_BEFORE_MONTH ! nat m + (if m > 2 \<and> leapyear then 1 else 0) + dd = n + 1"
proof -
  define k where "k = (n + 50) div 32"
  have kb: "1 \<le> k" "k \<le> 12" using assms(1,2) unfolding k_def by (auto split: if_splits)
  have nb: "32 * k \<le> n + 50" "n + 50 < 32 * k + 32" unfolding k_def by presburger+
  have kd: "(n + 50) div 32 = k" by (simp add: k_def)
  from kb have "k = 1 \<or> k = 2 \<or> k = 3 \<or> k = 4 \<or> k = 5 \<or> k = 6 \<or> k = 7
    \<or> k = 8 \<or> k = 9 \<or> k = 10 \<or> k = 11 \<or> k = 12" by arith
  then show ?thesis
    using nb assms unfolding month_day_def kd
    by (elim disjE)
      (auto simp: Let_def DAYS_BEFORE_MONTH_def DAYS_IN_MONTH_def split: if_splits)
qed

lemma case_if:
  "(case (if c then p else q) of (m, dd) \<Rightarrow> f m dd)
     = (if c then (case p of (m, dd) \<Rightarrow> f m dd) else (case q of (m, dd) \<Rightarrow> f m dd))"
  by simp

lemma ord2ymd_unfold:
  "ord2ymd d =
     (let n = d - 1;
          a = n div 146097; r1 = n mod 146097;
          b = r1 div 36524; r2 = r1 mod 36524;
          c = r2 div 1461; r3 = r2 mod 1461;
          e = r3 div 365; r4 = r3 mod 365;
          y = a * 400 + 1 + b * 100 + c * 4 + e
      in if e = 4 \<or> b = 4 then (y - 1, 12, 31)
         else (case month_day r4 (e = 3 \<and> (c \<noteq> 24 \<or> b = 3)) of (m, dd) \<Rightarrow> (y, m, dd)))"
  unfolding ord2ymd_def month_day_def Let_def case_if prod.case
  by (rule refl)

lemma div_split: "0 \<le> r \<Longrightarrow> r < k \<Longrightarrow> (k * q + r) div k = (q::int)"
  by (simp add: div_pos_pos_trivial)

lemma mod_zero_top: "1 \<le> z \<Longrightarrow> z \<le> k \<Longrightarrow> (z mod k = 0) = (z = (k::int))"
proof (cases "z = k")
  case True
  then show ?thesis by simp
next
  case False
  assume "1 \<le> z" "z \<le> k"
  with False have "z mod k = z" by (simp add: mod_pos_pos_trivial)
  with \<open>1 \<le> z\<close> False show ?thesis by simp
qed

lemma days_before_year_split:
  assumes "0 \<le> b" "b \<le> 3" "0 \<le> c" "c \<le> 24" "0 \<le> e" "e \<le> 3"
  shows "days_before_year (400 * a + 100 * b + 4 * c + e + 1)
           = 146097 * a + 36524 * b + 1461 * c + 365 * e"
proof -
  let ?y = "400 * a + 100 * b + 4 * c + e"
  have "?y = 4 * (100 * a + 25 * b + c) + e" by simp
  then have d4: "?y div 4 = 100 * a + 25 * b + c"
    using div_split[of e 4 "100 * a + 25 * b + c"] assms by simp
  have "?y = 100 * (4 * a + b) + (4 * c + e)" by simp
  then have d100: "?y div 100 = 4 * a + b"
    using div_split[of "4 * c + e" 100 "4 * a + b"] assms by simp
  have d400: "?y div 400 = a"
    using div_split[of "100 * b + 4 * c + e" 400 a] assms by (simp add: add.assoc)
  have "days_before_year (?y + 1) = ?y * 365 + ?y div 4 - ?y div 100 + ?y div 400"
    by (simp add: days_before_year_def Let_def)
  also have "\<dots> = 146097 * a + 36524 * b + 1461 * c + 365 * e"
    unfolding d4 d100 d400 by simp
  finally show ?thesis .
qed

lemma is_leap_split:
  assumes "0 \<le> b" "b \<le> 3" "0 \<le> c" "c \<le> 24" "0 \<le> e" "e \<le> 3"
  shows "is_leap (400 * a + 100 * b + 4 * c + e + 1) = (e = 3 \<and> (c \<noteq> 24 \<or> b = 3))"
proof -
  let ?y = "400 * a + 100 * b + 4 * c + e + 1"
  have "?y = 4 * (100 * a + 25 * b + c) + (e + 1)" by simp
  then have "?y mod 4 = (e + 1) mod 4" by (simp only: mod_mult_self4)
  then have m4: "(?y mod 4 = 0) = (e + 1 = 4)"
    using mod_zero_top[of "e + 1" 4] assms by simp
  have "?y = 100 * (4 * a + b) + (4 * c + e + 1)" by simp
  then have "?y mod 100 = (4 * c + e + 1) mod 100" by (simp only: mod_mult_self4)
  then have m100: "(?y mod 100 = 0) = (4 * c + e + 1 = 100)"
    using mod_zero_top[of "4 * c + e + 1" 100] assms by simp
  have "?y = 400 * a + (100 * b + 4 * c + e + 1)" by simp
  then have "?y mod 400 = (100 * b + 4 * c + e + 1) mod 400" by (simp only: mod_mult_self4)
  then have m400: "(?y mod 400 = 0) = (100 * b + 4 * c + e + 1 = 400)"
    using mod_zero_top[of "100 * b + 4 * c + e + 1" 400] assms by simp
  show ?thesis unfolding is_leap_def m4 m100 m400 using assms by arith
qed

lemma ord2ymd_inverse:
  assumes d: "1 \<le> d" "d \<le> 3652059" and res: "ord2ymd d = (y, m, dd)"
  shows "ymd2ord y m dd = d \<and> 1 \<le> y \<and> y \<le> 9999 \<and> 1 \<le> m \<and> m \<le> 12 \<and> 1 \<le> dd \<and> dd \<le> 31"
proof -
  define n where "n = d - 1"
  define a where "a = n div 146097"
  define r1 where "r1 = n mod 146097"
  define b where "b = r1 div 36524"
  define r2 where "r2 = r1 mod 36524"
  define c where "c = r2 div 1461"
  define r3 where "r3 = r2 mod 1461"
  define e where "e = r3 div 365"
  define r4 where "r4 = r3 mod 365"
  define yy where "yy = a * 400 + 1 + b * 100 + c * 4 + e"
  define leap where "leap = (e = 3 \<and> (c \<noteq> 24 \<or> b = 3))"
  have u: "ord2ymd d =
      (if e = 4 \<or> b = 4 then (yy - 1, 12, 31)
       else (case month_day r4 leap of (m, dd) \<Rightarrow> (yy, m, dd)))"
    unfolding ord2ymd_unfold Let_def leap_def yy_def r4_def e_def r3_def c_def r2_def b_def
      r1_def a_def n_def
    by (rule refl)
  have n: "0 \<le> n" "n \<le> 3652058" "d = n + 1" using d by (simp_all add: n_def)
  have s1: "n = 146097 * a + r1" "0 \<le> r1" "r1 < 146097"
    by (simp_all add: a_def r1_def)
  have s2: "r1 = 36524 * b + r2" "0 \<le> r2" "r2 < 36524"
    by (simp_all add: b_def r2_def)
  have s3: "r2 = 1461 * c + r3" "0 \<le> r3" "r3 < 1461"
    by (simp_all add: c_def r3_def)
  have s4: "r3 = 365 * e + r4" "0 \<le> r4" "r4 < 365"
    by (simp_all add: e_def r4_def)
  have a0: "0 \<le> a" using n(1) by (simp add: a_def pos_imp_zdiv_nonneg_iff)
  have b0: "0 \<le> b" using s1(2) by (simp add: b_def pos_imp_zdiv_nonneg_iff)
  have c0: "0 \<le> c" using s2(2) by (simp add: c_def pos_imp_zdiv_nonneg_iff)
  have e0: "0 \<le> e" using s3(2) by (simp add: e_def pos_imp_zdiv_nonneg_iff)
  have a24: "a \<le> 24" using n(2) s1 by arith
  have b4: "b \<le> 4" using s1 s2 by arith
  have c24: "c \<le> 24" using s2 s3 by arith
  have e4: "e \<le> 4" using s3 s4 by arith
  have yy: "yy = 400 * a + 100 * b + 4 * c + e + 1" by (simp add: yy_def)
  show ?thesis
  proof (cases "b = 4")
    case True
    with s1 s2 s3 s4 c0 e0 have z: "r2 = 0" "c = 0" "e = 0" "r4 = 0" by arith+
    from u True res have r: "y = yy - 1" "m = 12" "dd = 31" by simp_all
    have y: "y = 400 * a + 100 * 3 + 4 * 24 + 3 + 1" using r(1) yy True z by simp
    have dby: "days_before_year y = 146097 * a + 36524 * 3 + 1461 * 24 + 365 * 3"
      unfolding y by (rule days_before_year_split) simp_all
    have lp: "is_leap y"
      unfolding y by (subst is_leap_split) simp_all
    have "ymd2ord y m dd = d"
      using dby lp r n(3) s1(1) s2(1) True z
      by (simp add: ymd2ord_def days_before_month_def DAYS_BEFORE_MONTH_def)
    moreover have "1 \<le> y" "y \<le> 9999" using y a0 n(2) s1 s2 True z by arith+
    ultimately show ?thesis using r by simp
  next
    case b3: False
    with b4 have b3': "b \<le> 3" by simp
    show ?thesis
    proof (cases "e = 4")
      case True
      with s3 s4 have z: "r4 = 0" "r3 = 1460" by arith+
      with s2 s3 have c23: "c \<le> 23" by arith
      from u True res have r: "y = yy - 1" "m = 12" "dd = 31" by simp_all
      have y: "y = 400 * a + 100 * b + 4 * c + 3 + 1" using r(1) yy True by simp
      have dby: "days_before_year y = 146097 * a + 36524 * b + 1461 * c + 365 * 3"
        unfolding y by (rule days_before_year_split) (use b0 b3' c0 c24 in simp_all)
      have lp: "is_leap y"
        unfolding y by (subst is_leap_split) (use b0 b3' c0 c24 c23 in simp_all)
      have "ymd2ord y m dd = d"
        using dby lp r n(3) s1(1) s2(1) s3(1) z
        by (simp add: ymd2ord_def days_before_month_def DAYS_BEFORE_MONTH_def)
      moreover have "1 \<le> y" using y a0 b0 c0 by simp
      moreover have "y \<le> 9999" using y a0 b0 b3' c0 c23 n(2) s1 s2 s3 z by arith
      ultimately show ?thesis using r by simp
    next
      case False
      with e4 have e3: "e \<le> 3" by simp
      obtain m' dd' where md: "month_day r4 leap = (m', dd')" by (cases "month_day r4 leap")
      from u b3 False res md have r: "y = yy" "m = m'" "dd = dd'" by simp_all
      have rng: "r4 < 365 + (if leap then 1 else 0)" using s4(3) by simp
      from month_day_ok[OF s4(2) rng md] r
      have mdok: "1 \<le> m" "m \<le> 12" "1 \<le> dd" "dd \<le> 31"
        "DAYS_BEFORE_MONTH ! nat m + (if m > 2 \<and> leap then 1 else 0) + dd = r4 + 1"
        by simp_all
      have y: "y = 400 * a + 100 * b + 4 * c + e + 1" using r(1) yy by simp
      have dby: "days_before_year y = 146097 * a + 36524 * b + 1461 * c + 365 * e"
        unfolding y by (rule days_before_year_split) (use b0 b3' c0 c24 e0 e3 in simp_all)
      have lp: "is_leap y = leap"
        unfolding y leap_def by (rule is_leap_split) (use b0 b3' c0 c24 e0 e3 in simp_all)
      have "ymd2ord y m dd = d"
        using dby lp mdok(5) n(3) s1(1) s2(1) s3(1) s4(1)
        by (simp add: ymd2ord_def days_before_month_def)
      moreover have "1 \<le> y" using y a0 b0 c0 e0 by simp
      moreover have "y \<le> 9999"
        using y a0 a24 b0 b3' c0 c24 e0 e3 n(2) s1 s2 s3 s4 by arith
      ultimately show ?thesis using mdok by simp
    qed
  qed
qed

text \<open>
  The ISO text of a date, and of a datetime in UTC, determines it: two instants of the
  type's range with the same text are the same instant.
\<close>

lemma length_zdec: "length (zdec k n) = k"
  by (induction k arbitrary: n) simp_all

lemma digit_char_inj:
  assumes "a < 10" "b < 10" "digit_char a = digit_char b"
  shows "a = b"
proof -
  have "distinct ''0123456789''" by simp
  moreover have "a < length ''0123456789''" "b < length ''0123456789''" using assms by simp_all
  ultimately show ?thesis
    using assms(3) unfolding digit_char_def by (simp only: nth_eq_iff_index_eq)
qed

lemma zdec_inj: "zdec k a = zdec k b \<Longrightarrow> a mod 10 ^ k = b mod 10 ^ k"
proof (induction k arbitrary: a b)
  case 0
  then show ?case by simp
next
  case (Suc k)
  from Suc.prems have hd: "zdec k (a div 10) = zdec k (b div 10)"
    and lst: "digit_char (a mod 10) = digit_char (b mod 10)"
    by (simp_all add: length_zdec)
  from lst have l: "a mod 10 = b mod 10" by (rule digit_char_inj[rotated 2]) simp_all
  from Suc.IH[OF hd] have h: "a div 10 mod 10 ^ k = b div 10 mod 10 ^ k" .
  have "a mod 10 ^ Suc k = 10 * (a div 10 mod 10 ^ k) + a mod 10"
    by (simp add: mod_mult2_eq)
  moreover have "b mod 10 ^ Suc k = 10 * (b div 10 mod 10 ^ k) + b mod 10"
    by (simp add: mod_mult2_eq)
  ultimately show ?case using l h by simp
qed

lemma zdec_inj_small:
  assumes "zdec k (nat a) = zdec k (nat b)" "0 \<le> a" "a < 10 ^ k" "0 \<le> b" "b < 10 ^ k"
  shows "a = b"
proof -
  from zdec_inj[OF assms(1)] have "nat a mod 10 ^ k = nat b mod 10 ^ k" .
  moreover have "nat a < 10 ^ k" "nat b < 10 ^ k"
    using assms(2-5) by (simp_all add: nat_less_iff)
  ultimately have "nat a = nat b" by simp
  with assms(2,4) show ?thesis by simp
qed

lemma date_isoformat_inj:
  assumes eq: "date_isoformat d1 = date_isoformat d2" and ok: "date_ok d1" "date_ok d2"
  shows "d1 = d2"
proof -
  obtain y1 m1 dd1 where o1: "ord2ymd d1 = (y1, m1, dd1)" by (cases "ord2ymd d1")
  obtain y2 m2 dd2 where o2: "ord2ymd d2 = (y2, m2, dd2)" by (cases "ord2ymd d2")
  from ok have r: "1 \<le> d1" "d1 \<le> 3652059" "1 \<le> d2" "d2 \<le> 3652059"
    by (simp_all add: date_ok_def MAXORDINAL_def)
  note i1 = ord2ymd_inverse[OF r(1,2) o1]
  note i2 = ord2ymd_inverse[OF r(3,4) o2]
  from eq o1 o2 have s: "zdec 4 (nat y1) @ ''-'' @ zdec 2 (nat m1) @ ''-'' @ zdec 2 (nat dd1)
      = zdec 4 (nat y2) @ ''-'' @ zdec 2 (nat m2) @ ''-'' @ zdec 2 (nat dd2)"
    by (simp add: date_isoformat_def)
  then have y: "zdec 4 (nat y1) = zdec 4 (nat y2)"
    and rest: "zdec 2 (nat m1) @ ''-'' @ zdec 2 (nat dd1) = zdec 2 (nat m2) @ ''-'' @ zdec 2 (nat dd2)"
    by (simp_all add: append_eq_append_conv length_zdec)
  from rest have m: "zdec 2 (nat m1) = zdec 2 (nat m2)" and dd: "zdec 2 (nat dd1) = zdec 2 (nat dd2)"
    by (simp_all add: append_eq_append_conv length_zdec)
  have "y1 = y2" using y i1 i2 by (intro zdec_inj_small[of 4]) simp_all
  moreover have "m1 = m2" using m i1 i2 by (intro zdec_inj_small[of 2]) simp_all
  moreover have "dd1 = dd2" using dd i1 i2 by (intro zdec_inj_small[of 2]) simp_all
  ultimately show ?thesis using i1 i2 by simp
qed

lemma div_bounds:
  assumes "0 \<le> x" "x < n * k" "0 < k"
  shows "0 \<le> x div k \<and> x div k < (n::int)"
proof -
  have "x div k \<le> (n * k - 1) div k" using assms by (intro zdiv_mono1) simp_all
  also have "n * k - 1 = k * (n - 1) + (k - 1)" by (simp add: algebra_simps)
  also have "(k * (n - 1) + (k - 1)) div k = n - 1"
    using assms(3) by (intro div_split) simp_all
  finally show ?thesis using assms by (simp add: pos_imp_zdiv_nonneg_iff)
qed

lemma length_date_isoformat: "length (date_isoformat d) = 10"
  by (simp add: date_isoformat_def length_zdec split: prod.splits)

lemma time_of_day_parts:
  fixes r :: int
  shows "r = (r div US_PER_HOUR) * US_PER_HOUR
            + ((r mod US_PER_HOUR) div US_PER_MINUTE) * US_PER_MINUTE
            + ((r mod US_PER_MINUTE) div 1000000) * 1000000 + r mod 1000000"
proof -
  have a: "r = (r div US_PER_HOUR) * US_PER_HOUR + r mod US_PER_HOUR" by simp
  have b: "r mod US_PER_HOUR
      = ((r mod US_PER_HOUR) div US_PER_MINUTE) * US_PER_MINUTE
        + (r mod US_PER_HOUR) mod US_PER_MINUTE" by simp
  have c: "(r mod US_PER_HOUR) mod US_PER_MINUTE = r mod US_PER_MINUTE"
    by (rule mod_mod_cancel) (simp add: US_PER_HOUR_def US_PER_MINUTE_def)
  have d: "r mod US_PER_MINUTE
      = ((r mod US_PER_MINUTE) div 1000000) * 1000000 + (r mod US_PER_MINUTE) mod 1000000"
    by simp
  have e: "(r mod US_PER_MINUTE) mod 1000000 = r mod 1000000"
    by (rule mod_mod_cancel) (simp add: US_PER_MINUTE_def)
  from a b c d e show ?thesis by linarith
qed

lemma naive_isoformat_inj:
  assumes eq: "naive_isoformat t1 = naive_isoformat t2" and ok: "instant_ok t1" "instant_ok t2"
  shows "t1 = t2"
proof -
  define r1 where "r1 = t1 mod US_PER_DAY"
  define r2 where "r2 = t2 mod US_PER_DAY"
  define f1 where "f1 = (if r1 mod 1000000 \<noteq> 0 then ''.'' @ zdec 6 (nat (r1 mod 1000000)) else [])"
  define f2 where "f2 = (if r2 mod 1000000 \<noteq> 0 then ''.'' @ zdec 6 (nat (r2 mod 1000000)) else [])"
  have rb: "0 \<le> r1" "r1 < US_PER_DAY" "0 \<le> r2" "r2 < US_PER_DAY"
    by (simp_all add: r1_def r2_def US_PER_DAY_def)
  from eq have s: "date_isoformat (date_of t1) @ ''T'' @ zdec 2 (nat (r1 div US_PER_HOUR)) @ '':''
        @ zdec 2 (nat ((r1 mod US_PER_HOUR) div US_PER_MINUTE)) @ '':''
        @ zdec 2 (nat ((r1 mod US_PER_MINUTE) div 1000000)) @ f1
      = date_isoformat (date_of t2) @ ''T'' @ zdec 2 (nat (r2 div US_PER_HOUR)) @ '':''
        @ zdec 2 (nat ((r2 mod US_PER_HOUR) div US_PER_MINUTE)) @ '':''
        @ zdec 2 (nat ((r2 mod US_PER_MINUTE) div 1000000)) @ f2"
    unfolding naive_isoformat_def Let_def r1_def r2_def f1_def f2_def .
  then have dt: "date_isoformat (date_of t1) = date_isoformat (date_of t2)"
    and s1: "zdec 2 (nat (r1 div US_PER_HOUR)) @ '':''
        @ zdec 2 (nat ((r1 mod US_PER_HOUR) div US_PER_MINUTE)) @ '':''
        @ zdec 2 (nat ((r1 mod US_PER_MINUTE) div 1000000)) @ f1
      = zdec 2 (nat (r2 div US_PER_HOUR)) @ '':''
        @ zdec 2 (nat ((r2 mod US_PER_HOUR) div US_PER_MINUTE)) @ '':''
        @ zdec 2 (nat ((r2 mod US_PER_MINUTE) div 1000000)) @ f2"
    by (simp_all add: append_eq_append_conv length_date_isoformat)
  from s1 have hh: "zdec 2 (nat (r1 div US_PER_HOUR)) = zdec 2 (nat (r2 div US_PER_HOUR))"
    and s2: "zdec 2 (nat ((r1 mod US_PER_HOUR) div US_PER_MINUTE)) @ '':''
        @ zdec 2 (nat ((r1 mod US_PER_MINUTE) div 1000000)) @ f1
      = zdec 2 (nat ((r2 mod US_PER_HOUR) div US_PER_MINUTE)) @ '':''
        @ zdec 2 (nat ((r2 mod US_PER_MINUTE) div 1000000)) @ f2"
    by (simp_all add: append_eq_append_conv length_zdec)
  from s2 have mm: "zdec 2 (nat ((r1 mod US_PER_HOUR) div US_PER_MINUTE))
        = zdec 2 (nat ((r2 mod US_PER_HOUR) div US_PER_MINUTE))"
    and s3: "zdec 2 (nat ((r1 mod US_PER_MINUTE) div 1000000)) @ f1
      = zdec 2 (nat ((r2 mod US_PER_MINUTE) div 1000000)) @ f2"
    by (simp_all add: append_eq_append_conv length_zdec)
  from s3 have ss: "zdec 2 (nat ((r1 mod US_PER_MINUTE) div 1000000))
        = zdec 2 (nat ((r2 mod US_PER_MINUTE) div 1000000))"
    and ff: "f1 = f2"
    by (simp_all add: append_eq_append_conv length_zdec)
  have h: "r1 div US_PER_HOUR = r2 div US_PER_HOUR"
  proof (rule zdec_inj_small[OF hh])
    from div_bounds[of r1 24 US_PER_HOUR] rb
    show "0 \<le> r1 div US_PER_HOUR" "r1 div US_PER_HOUR < 10 ^ 2"
      by (simp_all add: US_PER_HOUR_def US_PER_DAY_def)
    from div_bounds[of r2 24 US_PER_HOUR] rb
    show "0 \<le> r2 div US_PER_HOUR" "r2 div US_PER_HOUR < 10 ^ 2"
      by (simp_all add: US_PER_HOUR_def US_PER_DAY_def)
  qed
  have m: "(r1 mod US_PER_HOUR) div US_PER_MINUTE = (r2 mod US_PER_HOUR) div US_PER_MINUTE"
  proof (rule zdec_inj_small[OF mm])
    from div_bounds[of "r1 mod US_PER_HOUR" 60 US_PER_MINUTE]
    show "0 \<le> (r1 mod US_PER_HOUR) div US_PER_MINUTE"
      "(r1 mod US_PER_HOUR) div US_PER_MINUTE < 10 ^ 2"
      by (simp_all add: US_PER_HOUR_def US_PER_MINUTE_def)
    from div_bounds[of "r2 mod US_PER_HOUR" 60 US_PER_MINUTE]
    show "0 \<le> (r2 mod US_PER_HOUR) div US_PER_MINUTE"
      "(r2 mod US_PER_HOUR) div US_PER_MINUTE < 10 ^ 2"
      by (simp_all add: US_PER_HOUR_def US_PER_MINUTE_def)
  qed
  have sc: "(r1 mod US_PER_MINUTE) div 1000000 = (r2 mod US_PER_MINUTE) div 1000000"
  proof (rule zdec_inj_small[OF ss])
    from div_bounds[of "r1 mod US_PER_MINUTE" 60 1000000]
    show "0 \<le> (r1 mod US_PER_MINUTE) div 1000000" "(r1 mod US_PER_MINUTE) div 1000000 < 10 ^ 2"
      by (simp_all add: US_PER_MINUTE_def)
    from div_bounds[of "r2 mod US_PER_MINUTE" 60 1000000]
    show "0 \<le> (r2 mod US_PER_MINUTE) div 1000000" "(r2 mod US_PER_MINUTE) div 1000000 < 10 ^ 2"
      by (simp_all add: US_PER_MINUTE_def)
  qed
  have us: "r1 mod 1000000 = r2 mod 1000000"
  proof (cases "r1 mod 1000000 = 0")
    case True
    with ff have "f2 = []" by (simp add: f1_def)
    then have "r2 mod 1000000 = 0" by (simp add: f2_def split: if_splits)
    with True show ?thesis by simp
  next
    case False
    with ff have "f2 \<noteq> []" by (auto simp: f1_def)
    then have nz: "r2 mod 1000000 \<noteq> 0" by (simp add: f2_def split: if_splits)
    with False ff have "zdec 6 (nat (r1 mod 1000000)) = zdec 6 (nat (r2 mod 1000000))"
      by (simp add: f1_def f2_def)
    then show ?thesis by (intro zdec_inj_small[of 6]) simp_all
  qed
  have "r1 = r2"
    using time_of_day_parts[of r1] time_of_day_parts[of r2] h m sc us by simp
  moreover have "date_of t1 = date_of t2"
  proof (rule date_isoformat_inj[OF dt])
    from div_bounds[of t1 MAXORDINAL US_PER_DAY] ok(1)
    show "date_ok (date_of t1)"
      by (simp add: date_ok_def date_of_def instant_ok_def US_PER_DAY_def)
    from div_bounds[of t2 MAXORDINAL US_PER_DAY] ok(2)
    show "date_ok (date_of t2)"
      by (simp add: date_ok_def date_of_def instant_ok_def US_PER_DAY_def)
  qed
  moreover have "t1 = (t1 div US_PER_DAY) * US_PER_DAY + r1"
    "t2 = (t2 div US_PER_DAY) * US_PER_DAY + r2"
    by (simp_all add: r1_def r2_def)
  ultimately show ?thesis by (simp add: date_of_def)
qed

lemma utc_isoformat_inj:
  "utc_isoformat t1 = utc_isoformat t2 \<Longrightarrow> instant_ok t1 \<Longrightarrow> instant_ok t2 \<Longrightarrow> t1 = t2"
  by (simp add: utc_isoformat_def naive_isoformat_inj)

subsection \<open>The backward walk\<close>

declare walk.simps [simp del]

lemma walk_unfold:
  "walk step t sb s w =
     (if cur s \<ge> sb then
        (case step (cur s) w of
           (Inl e, w1) \<Rightarrow> (Some e, s\<lparr>days_processed := days_processed s + 1\<rparr>, w1)
         | (Inr a, w1) \<Rightarrow>
             if int (empty_streak (record_day t s a)) \<ge> t
             then (None, (record_day t s a)\<lparr>out := out (record_day t s a) @ [LogStopping]\<rparr>, w1)
             else (case date_sub (cur s) 1 of
                     Inl e \<Rightarrow> (Some e, record_day t s a, w1)
                   | Inr d \<Rightarrow> walk step t sb ((record_day t s a)\<lparr>cur := d\<rparr>) w1))
      else (None, s, w))"
  by (subst walk.simps) (simp add: record_day_def Let_def split: prod.splits sum.splits)

lemma processed_append: "processed (a @ b) = processed a @ processed b"
  by (simp add: processed_def)

lemma processed_Nil: "processed [] = []"
  by (simp add: processed_def)

lemma out_record_day:
  "\<exists>ev. out (record_day t s a) = out s @ [ev] \<and> loop_event ev \<and> day_event ev = [(cur s, a)]"
  by (simp add: record_day_def)

lemma cur_record_day: "cur (record_day t s a) = cur s"
  by (simp add: record_day_def)

lemma streak_record_day:
  "empty_streak (record_day t s a) = (if a = 0 then empty_streak s + 1 else 0)"
  by (simp add: record_day_def)

text \<open>
  What one call of the loop adds to the log: only lines of the loop, for the days
  \<open>cur\<close>, \<open>cur - 1\<close>, ... in this order, none of them before \<open>stop_before\<close>, and with
  the streak below the threshold after every day but the last.
\<close>

lemma walk_out:
  "walk step t sb s w = (r, s', w') \<Longrightarrow>
     \<exists>evs. out s' = out s @ evs
        \<and> list_all loop_event evs
        \<and> backward_from (cur s) (processed evs)
        \<and> list_all (\<lambda>p. sb \<le> fst p) (processed evs)
        \<and> no_early_stop t (empty_streak s) (map snd (processed evs))"
proof (induction step t sb s w arbitrary: r s' w' rule: walk.induct)
  case (1 step t sb s w)
  show ?case
  proof (cases "cur s \<ge> sb")
    case False
    with "1.prems" have "s' = s" by (simp add: walk_unfold)
    then show ?thesis by (simp add: processed_Nil)
  next
    case True
    obtain res w1 where st: "step (cur s) w = (res, w1)" by (cases "step (cur s) w")
    show ?thesis
    proof (cases res)
      case (Inl e)
      with "1.prems" True st have "s' = s\<lparr>days_processed := days_processed s + 1\<rparr>"
        by (simp add: walk_unfold)
      then show ?thesis by (simp add: processed_Nil)
    next
      case (Inr a)
      let ?s3 = "record_day t s a"
      obtain ev where ev: "out ?s3 = out s @ [ev]" "loop_event ev" "day_event ev = [(cur s, a)]"
        using out_record_day by blast
      then have pev: "processed [ev] = [(cur s, a)]" by (simp add: processed_def)
      show ?thesis
      proof (cases "int (empty_streak ?s3) \<ge> t")
        case stop: True
        with "1.prems" True st Inr have "s' = ?s3\<lparr>out := out ?s3 @ [LogStopping]\<rparr>"
          by (simp add: walk_unfold)
        then have "out s' = out s @ [ev, LogStopping]" using ev(1) by simp
        moreover have "processed [ev, LogStopping] = [(cur s, a)]"
          using ev(3) by (simp add: processed_def)
        ultimately show ?thesis using True ev(2) by auto
      next
        case cont: False
        show ?thesis
        proof (cases "date_sub (cur s) 1")
          case (Inl e)
          with "1.prems" True st Inr cont have "s' = ?s3" by (simp add: walk_unfold)
          then have "out s' = out s @ [ev]" using ev(1) by simp
          then show ?thesis using True ev(2) pev by auto
        next
          case dd: (Inr d)
          then have d: "d = cur s - 1" by (simp add: date_sub_def split: if_splits)
          from "1.prems" True st Inr cont dd
          have w: "walk step t sb (?s3\<lparr>cur := d\<rparr>) w1 = (r, s', w')"
            by (simp add: walk_unfold)
          let ?x = "s\<lparr>days_processed := days_processed s + 1\<rparr>"
          let ?xaa = "?x\<lparr>total_affected := total_affected ?x + a\<rparr>"
          let ?xb = "if a = 0
             then ?xaa\<lparr>empty_streak := empty_streak ?xaa + 1,
                   out := out ?xaa @ [LogNoData (cur ?xaa) (empty_streak ?xaa + 1) t]\<rparr>
             else ?xaa\<lparr>empty_streak := 0, out := out ?xaa @ [LogUpserted (cur ?xaa) a]\<rparr>"
          have xb: "?xb = ?s3" by (simp add: record_day_def)
          have c1: "\<not> t \<le> int (empty_streak ?xb)" using cont unfolding xb .
          have c2: "date_sub (cur ?xb) 1 = Inr d"
            using dd unfolding xb by (simp add: cur_record_day)
          have c3: "walk step t sb (?xb\<lparr>cur := d\<rparr>) w1 = (r, s', w')" using w unfolding xb .
          have "\<exists>evs. out s' = out (?xb\<lparr>cur := d\<rparr>) @ evs
              \<and> list_all loop_event evs
              \<and> backward_from (cur (?xb\<lparr>cur := d\<rparr>)) (processed evs)
              \<and> list_all (\<lambda>p. sb \<le> fst p) (processed evs)
              \<and> no_early_stop t (empty_streak (?xb\<lparr>cur := d\<rparr>)) (map snd (processed evs))"
            using "1.IH"[OF True refl st[symmetric] Inr refl refl c1 c2 c3] .
          then obtain evs where evs: "out s' = out ?s3 @ evs" "list_all loop_event evs"
            "backward_from d (processed evs)" "list_all (\<lambda>p. sb \<le> fst p) (processed evs)"
            "no_early_stop t (empty_streak ?s3) (map snd (processed evs))"
            unfolding xb by auto
          let ?evs = "ev # evs"
          have p: "processed ?evs = (cur s, a) # processed evs"
            using ev(3) by (simp add: processed_def)
          have "out s' = out s @ ?evs" using evs(1) ev(1) by simp
          moreover have "list_all loop_event ?evs" using evs(2) ev(2) by simp
          moreover have "backward_from (cur s) (processed ?evs)" using evs(3) d p by simp
          moreover have "list_all (\<lambda>p. sb \<le> fst p) (processed ?evs)" using evs(4) True p by simp
          moreover have "no_early_stop t (empty_streak s) (map snd (processed ?evs))"
            using evs(5) cont p by (simp add: streak_record_day)
          ultimately show ?thesis by blast
        qed
      qed
    qed
  qed
qed

lemma days_back_0: "days_back e 0 = []"
  by (simp add: days_back_def)

lemma days_back_Suc: "days_back e (Suc n) = e # days_back (e - 1) n"
proof -
  have "map (\<lambda>i. e - int i) [0..<Suc n] = e # map (\<lambda>i. e - 1 - int i) [0..<n]"
    by (simp add: upt_conv_Cons map_Suc_upt[symmetric] del: upt_Suc)
  then show ?thesis by (simp add: days_back_def)
qed

text \<open>
  What one call of the loop does to the outside: it runs the day steps of the days
  \<open>cur\<close>, \<open>cur - 1\<close>, ... one after another, as many as it counts in \<open>days_processed\<close>,
  and nothing else. Every one of them but possibly the last returns, and is logged; the
  last one may raise, and then the loop raises with it. If the streak is at the threshold
  after the last logged day, the loop has returned there.
\<close>

lemma walk_run:
  "walk step t sb s w = (r, s', w') \<Longrightarrow>
     \<exists>evs rest n.
        out s' = out s @ evs
      \<and> days_processed s' = days_processed s + n
      \<and> list_all (\<lambda>d. sb \<le> d) (days_back (cur s) n)
      \<and> run_days step (days_back (cur s) n) w
           = (map (\<lambda>p. Inr (snd p)) (processed evs) @ rest, w')
      \<and> (rest = [] \<and> n = length (processed evs)
            \<or> (\<exists>err. rest = [Inl err] \<and> r = Some err \<and> n = Suc (length (processed evs))))
      \<and> empty_streak s' = streak_after (empty_streak s) (map snd (processed evs))
      \<and> (processed evs \<noteq> []
            \<and> t \<le> int (streak_after (empty_streak s) (map snd (processed evs)))
          \<longrightarrow> r = None \<and> rest = [])"
proof (induction step t sb s w arbitrary: r s' w' rule: walk.induct)
  case (1 step t sb s w)
  show ?case
  proof (cases "cur s \<ge> sb")
    case False
    with "1.prems" have "s' = s" "w' = w" by (simp_all add: walk_unfold)
    then show ?thesis
      by (intro exI[of _ "[]"] exI[of _ "0"]) (simp add: processed_Nil days_back_0)
  next
    case True
    obtain res w1 where st: "step (cur s) w = (res, w1)" by (cases "step (cur s) w")
    show ?thesis
    proof (cases res)
      case (Inl e)
      with "1.prems" True st have "s' = s\<lparr>days_processed := days_processed s + 1\<rparr>"
        "w' = w1" "r = Some e"
        by (simp_all add: walk_unfold)
      with True st Inl show ?thesis
        by (intro exI[of _ "[]"] exI[of _ "[Inl e]"] exI[of _ "Suc 0"])
          (simp add: processed_Nil days_back_Suc days_back_0)
    next
      case (Inr a)
      let ?s3 = "record_day t s a"
      obtain ev where ev: "out ?s3 = out s @ [ev]" "loop_event ev" "day_event ev = [(cur s, a)]"
        using out_record_day by blast
      have dp3: "days_processed ?s3 = days_processed s + 1" by (simp add: record_day_def)
      have one: "run_days step (days_back (cur s) (Suc 0)) w = ([Inr a], w1)"
        using st Inr by (simp add: days_back_Suc days_back_0)
      show ?thesis
      proof (cases "int (empty_streak ?s3) \<ge> t")
        case stop: True
        with "1.prems" True st Inr have "s' = ?s3\<lparr>out := out ?s3 @ [LogStopping]\<rparr>" "w' = w1"
          "r = None"
          by (simp_all add: walk_unfold)
        then have "out s' = out s @ [ev, LogStopping]" "days_processed s' = days_processed s + Suc 0"
          using ev(1) dp3 by simp_all
        moreover have "processed [ev, LogStopping] = [(cur s, a)]"
          using ev(3) by (simp add: processed_def)
        moreover have "empty_streak s' = streak_after (empty_streak s) [a]"
          using \<open>s' = ?s3\<lparr>out := out ?s3 @ [LogStopping]\<rparr>\<close> by (simp add: streak_record_day)
        ultimately show ?thesis using True one \<open>w' = w1\<close> \<open>r = None\<close>
          by (intro exI[of _ "[ev, LogStopping]"] exI[of _ "[]"] exI[of _ "Suc 0"])
            (simp add: days_back_Suc days_back_0)
      next
        case cont: False
        show ?thesis
        proof (cases "date_sub (cur s) 1")
          case (Inl e)
          with "1.prems" True st Inr cont have "s' = ?s3" "w' = w1" by (simp_all add: walk_unfold)
          then have "out s' = out s @ [ev]" "days_processed s' = days_processed s + Suc 0"
            using ev(1) dp3 by simp_all
          moreover have "processed [ev] = [(cur s, a)]" using ev(3) by (simp add: processed_def)
          moreover have "empty_streak s' = streak_after (empty_streak s) [a]"
            "\<not> t \<le> int (streak_after (empty_streak s) [a])"
            using \<open>s' = ?s3\<close> cont by (simp_all add: streak_record_day)
          ultimately show ?thesis using True one \<open>w' = w1\<close>
            by (intro exI[of _ "[ev]"] exI[of _ "[]"] exI[of _ "Suc 0"])
              (simp add: days_back_Suc days_back_0)
        next
          case dd: (Inr d)
          then have d: "d = cur s - 1" by (simp add: date_sub_def split: if_splits)
          from "1.prems" True st Inr cont dd
          have w: "walk step t sb (?s3\<lparr>cur := d\<rparr>) w1 = (r, s', w')"
            by (simp add: walk_unfold)
          let ?x = "s\<lparr>days_processed := days_processed s + 1\<rparr>"
          let ?xaa = "?x\<lparr>total_affected := total_affected ?x + a\<rparr>"
          let ?xb = "if a = 0
             then ?xaa\<lparr>empty_streak := empty_streak ?xaa + 1,
                   out := out ?xaa @ [LogNoData (cur ?xaa) (empty_streak ?xaa + 1) t]\<rparr>
             else ?xaa\<lparr>empty_streak := 0, out := out ?xaa @ [LogUpserted (cur ?xaa) a]\<rparr>"
          have xb: "?xb = ?s3" by (simp add: record_day_def)
          have c1: "\<not> t \<le> int (empty_streak ?xb)" using cont unfolding xb .
          have c2: "date_sub (cur ?xb) 1 = Inr d"
            using dd unfolding xb by (simp add: cur_record_day)
          have c3: "walk step t sb (?xb\<lparr>cur := d\<rparr>) w1 = (r, s', w')" using w unfolding xb .
          have "\<exists>evs rest n.
              out s' = out (?xb\<lparr>cur := d\<rparr>) @ evs
            \<and> days_processed s' = days_processed (?xb\<lparr>cur := d\<rparr>) + n
            \<and> list_all (\<lambda>d. sb \<le> d) (days_back (cur (?xb\<lparr>cur := d\<rparr>)) n)
            \<and> run_days step (days_back (cur (?xb\<lparr>cur := d\<rparr>)) n) w1
                 = (map (\<lambda>p. Inr (snd p)) (processed evs) @ rest, w')
            \<and> (rest = [] \<and> n = length (processed evs)
                  \<or> (\<exists>err. rest = [Inl err] \<and> r = Some err \<and> n = Suc (length (processed evs))))
            \<and> empty_streak s' = streak_after (empty_streak (?xb\<lparr>cur := d\<rparr>)) (map snd (processed evs))
            \<and> (processed evs \<noteq> []
                  \<and> t \<le> int (streak_after (empty_streak (?xb\<lparr>cur := d\<rparr>)) (map snd (processed evs)))
                \<longrightarrow> r = None \<and> rest = [])"
            using "1.IH"[OF True refl st[symmetric] Inr refl refl c1 c2 c3] .
          then obtain evs rest n where evs:
            "out s' = out ?s3 @ evs"
            "days_processed s' = days_processed ?s3 + n"
            "list_all (\<lambda>d. sb \<le> d) (days_back d n)"
            "run_days step (days_back d n) w1 = (map (\<lambda>p. Inr (snd p)) (processed evs) @ rest, w')"
            "rest = [] \<and> n = length (processed evs)
                  \<or> (\<exists>err. rest = [Inl err] \<and> r = Some err \<and> n = Suc (length (processed evs)))"
            "empty_streak s' = streak_after (empty_streak ?s3) (map snd (processed evs))"
            "processed evs \<noteq> []
                  \<and> t \<le> int (streak_after (empty_streak ?s3) (map snd (processed evs)))
                \<longrightarrow> r = None \<and> rest = []"
            unfolding xb by auto
          have p: "processed (ev # evs) = (cur s, a) # processed evs"
            using ev(3) by (simp add: processed_def)
          have "out s' = out s @ (ev # evs)" using evs(1) ev(1) by simp
          moreover have "days_processed s' = days_processed s + Suc n" using evs(2) dp3 by simp
          moreover have "list_all (\<lambda>d. sb \<le> d) (days_back (cur s) (Suc n))"
            using evs(3) True d by (simp add: days_back_Suc)
          moreover have "run_days step (days_back (cur s) (Suc n)) w
              = (map (\<lambda>p. Inr (snd p)) (processed (ev # evs)) @ rest, w')"
            using evs(4) st Inr d p by (simp add: days_back_Suc)
          moreover have "rest = [] \<and> Suc n = length (processed (ev # evs))
              \<or> (\<exists>err. rest = [Inl err] \<and> r = Some err
                    \<and> Suc n = Suc (length (processed (ev # evs))))"
            using evs(5) p by auto
          moreover have "empty_streak s'
              = streak_after (empty_streak s) (map snd (processed (ev # evs)))"
            using evs(6) p by (simp add: streak_record_day)
          moreover have "processed (ev # evs) \<noteq> []
                \<and> t \<le> int (streak_after (empty_streak s) (map snd (processed (ev # evs))))
              \<longrightarrow> r = None \<and> rest = []"
          proof (cases "processed evs = []")
            case True
            then have "streak_after (empty_streak s) (map snd (processed (ev # evs)))
                = empty_streak ?s3"
              using p by (simp add: streak_record_day)
            with cont show ?thesis by simp
          next
            case False
            with evs(7) p show ?thesis by (simp add: streak_record_day)
          qed
          ultimately show ?thesis
            by (intro exI[of _ "ev # evs"] exI[of _ rest] exI[of _ "Suc n"] conjI)
        qed
      qed
    qed
  qed
qed

lemma backward_from_map:
  "backward_from c h \<Longrightarrow> map fst h = map (\<lambda>i. c - int i) [0..<length h]"
proof (induction h arbitrary: c)
  case Nil
  then show ?case by simp
next
  case (Cons p h)
  then have "map fst h = map (\<lambda>i. c - 1 - int i) [0..<length h]" by simp
  moreover have "map (\<lambda>i. c - int i) [0..<Suc (length h)]
      = c # map (\<lambda>i. c - 1 - int i) [0..<length h]"
    by (simp add: upt_conv_Cons map_Suc_upt[symmetric] del: upt_Suc)
  ultimately show ?case using Cons.prems by simp
qed

lemma backward_from_length:
  "backward_from c h \<Longrightarrow> list_all (\<lambda>p. sb \<le> fst p) h \<Longrightarrow> int (length h) \<le> max 0 (c - sb + 1)"
proof (induction h arbitrary: c)
  case Nil
  then show ?case by simp
next
  case (Cons p h)
  from Cons.prems have "backward_from (c - 1) h" "list_all (\<lambda>p. sb \<le> fst p) h" by simp_all
  from Cons.IH[OF this] have "int (length h) \<le> max 0 (c - 1 - sb + 1)" .
  moreover from Cons.prems have "sb \<le> c" by simp
  ultimately show ?case by simp
qed

lemma no_early_stop_take:
  "no_early_stop t e cs \<Longrightarrow> 0 < k \<Longrightarrow> k < length cs \<Longrightarrow> int (streak_after e (take k cs)) < t"
proof (induction cs arbitrary: e k)
  case Nil
  then show ?case by simp
next
  case (Cons a as)
  let ?e = "if a = 0 then e + 1 else 0"
  from Cons.prems have nonempty: "as \<noteq> []" by auto
  with Cons.prems(1) have e: "int ?e < t" and rest: "no_early_stop t ?e as" by auto
  obtain j where k: "k = Suc j" using Cons.prems(2) by (cases k) auto
  show ?case
  proof (cases j)
    case 0
    with k e show ?thesis by simp
  next
    case (Suc i)
    with k Cons.prems(3) have "0 < j" "j < length as" by auto
    from Cons.IH[OF rest this] k show ?thesis by simp
  qed
qed

lemma walk_example:
  "walk counting_step 2 738099 (initial_state 739923 []) []
   = (None, \<lparr>cur = 739921, empty_streak = 2, total_affected = 5, days_processed = 3,
        out = [LogUpserted 739923 5, LogNoData 739922 1 2, LogNoData 739921 2 2, LogStopping]\<rparr>,
      [739923, 739922, 739921])"
  by (simp add: walk_unfold initial_state_def record_day_def date_sub_def date_ok_def
      MAXORDINAL_def counting_step_def)

text \<open>
  C1. In the backward walk, the day on which the count of consecutive days with no
  affected row reaches the threshold is the last day the walk touches. For any day step,
  any threshold and any start day \<open>e\<close>, let \<open>h\<close> be the days the run logged, with their
  affected counts. Then:

  \<^item> the logged days are \<open>e\<close>, \<open>e - 1\<close>, ... in this order;
  \<^item> after every non-empty proper prefix of them the empty streak is below the threshold
    (the walk went on only from days that left it there);
  \<^item> the day steps the walk ran are those of the days \<open>e\<close>, \<open>e - 1\<close>, ..., as many as
    \<open>days_processed\<close> counts, each from the state the one before left, and the state the
    walk leaves is the state the last of them left; these are the logged days, and at
    most one more day whose step raised (the walk then raises with it);
  \<^item> if the streak is at the threshold after the last logged day, the walk returns
    normally, \<open>days_processed\<close> is the number of logged days, and the state it leaves is
    the one left by the day steps of the logged days: no step of an earlier day was run,
    so no earlier day is fetched, built or upserted.
\<close>

theorem walk_stops_at_threshold:
  assumes run: "walk step t sb (initial_state e lg) w = (r, s', w')"
    and h: "processed (out s') = processed lg @ h"
  shows "map fst h = days_back e (length h)
       \<and> (\<forall>k. 0 < k \<and> k < length h \<longrightarrow> int (streak_after 0 (take k (map snd h))) < t)
       \<and> (\<exists>rest. run_days step (days_back e (days_processed s')) w
                    = (map (\<lambda>p. Inr (snd p)) h @ rest, w')
             \<and> (rest = [] \<and> days_processed s' = length h
                  \<or> (\<exists>err. rest = [Inl err] \<and> r = Some err
                        \<and> days_processed s' = Suc (length h))))
       \<and> (h \<noteq> [] \<and> t \<le> int (streak_after 0 (map snd h)) \<longrightarrow>
             r = None \<and> days_processed s' = length h
           \<and> run_days step (map fst h) w = (map (\<lambda>p. Inr (snd p)) h, w'))"
proof -
  from walk_out[OF run] obtain evs where evs:
    "out s' = lg @ evs" "backward_from e (processed evs)"
    "no_early_stop t 0 (map snd (processed evs))"
    by (auto simp: initial_state_def)
  from h evs(1) have pe: "processed evs = h" by (simp add: processed_append)
  have days: "map fst h = days_back e (length h)"
    using backward_from_map[of e h] evs(2) pe by (simp add: days_back_def)
  have early: "\<forall>k. 0 < k \<and> k < length h \<longrightarrow> int (streak_after 0 (take k (map snd h))) < t"
    using no_early_stop_take[of t 0 "map snd h"] evs(3) pe by simp
  from walk_run[OF run] obtain evs2 rest n where r:
    "out s' = out (initial_state e lg) @ evs2"
    "days_processed s' = days_processed (initial_state e lg) + n"
    "run_days step (days_back (cur (initial_state e lg)) n) w
       = (map (\<lambda>p. Inr (snd p)) (processed evs2) @ rest, w')"
    "rest = [] \<and> n = length (processed evs2)
       \<or> (\<exists>err. rest = [Inl err] \<and> r = Some err \<and> n = Suc (length (processed evs2)))"
    "processed evs2 \<noteq> []
       \<and> t \<le> int (streak_after (empty_streak (initial_state e lg)) (map snd (processed evs2)))
     \<longrightarrow> r = None \<and> rest = []"
    by blast
  from r(1) h have pe2: "processed evs2 = h"
    by (simp add: processed_append initial_state_def)
  from r(2) have n: "days_processed s' = n" by (simp add: initial_state_def)
  have run_all: "run_days step (days_back e (days_processed s')) w
      = (map (\<lambda>p. Inr (snd p)) h @ rest, w')"
    using r(3) pe2 n by (simp add: initial_state_def)
  have ends: "rest = [] \<and> days_processed s' = length h
      \<or> (\<exists>err. rest = [Inl err] \<and> r = Some err \<and> days_processed s' = Suc (length h))"
    using r(4) pe2 n by simp
  have stop: "h \<noteq> [] \<and> t \<le> int (streak_after 0 (map snd h)) \<longrightarrow>
       r = None \<and> days_processed s' = length h
     \<and> run_days step (map fst h) w = (map (\<lambda>p. Inr (snd p)) h, w')"
  proof (intro impI)
    assume a: "h \<noteq> [] \<and> t \<le> int (streak_after 0 (map snd h))"
    with r(5) pe2 have rn: "r = None" "rest = []" by (simp_all add: initial_state_def)
    with ends have dp: "days_processed s' = length h" by auto
    from run_all rn(2) dp days
    have "run_days step (map fst h) w = (map (\<lambda>p. Inr (snd p)) h, w')" by simp
    with rn(1) dp
    show "r = None \<and> days_processed s' = length h
        \<and> run_days step (map fst h) w = (map (\<lambda>p. Inr (snd p)) h, w')" by simp
  qed
  from days early run_all ends stop show ?thesis by blast
qed

text \<open>
  The counts \<open>[5, 0, 0, 3, ...]\<close> with threshold 2, walked back from 2026-11-03
  (ordinal 739923), with a day step that records the days it is run on: the walk logs
  three days, returns normally with the streak at the threshold, and the recorded days
  are these three; the step of 2026-10-31 (ordinal 739920, count 3) is never run.
\<close>

theorem walk_stops_at_threshold_witness:
  "fst (walk counting_step 2 738099 (initial_state 739923 []) []) = None
   \<and> processed (out (fst (snd (walk counting_step 2 738099 (initial_state 739923 []) []))))
       = [(739923, 5), (739922, 0), (739921, 0)]
   \<and> days_processed (fst (snd (walk counting_step 2 738099 (initial_state 739923 []) []))) = 3
   \<and> snd (snd (walk counting_step 2 738099 (initial_state 739923 []) []))
       = [739923, 739922, 739921]
   \<and> int (streak_after 0 (take 1 [5, 0, 0])) < 2
   \<and> int (streak_after 0 (take 2 [5, 0, 0])) < 2
   \<and> 2 \<le> int (streak_after 0 [5, 0, 0])"
proof -
  let ?h = "[(739923, 5), (739922, 0), (739921, 0)] :: (int \<times> nat) list"
  let ?s = "\<lparr>cur = 739921, empty_streak = 2, total_affected = 5, days_processed = 3,
        out = [LogUpserted 739923 5, LogNoData 739922 1 2, LogNoData 739921 2 2, LogStopping]\<rparr>"
  have p: "processed (out ?s) = processed [] @ ?h" by (simp add: processed_def)
  note inst = walk_stops_at_threshold[OF walk_example p]
  from inst have early:
    "\<forall>k. 0 < k \<and> k < length ?h \<longrightarrow> int (streak_after 0 (take k (map snd ?h))) < 2"
    by blast
  from early[rule_format, of 1] have k1: "int (streak_after 0 (take 1 [5, 0, 0])) < 2"
    by simp
  from early[rule_format, of 2] have k2: "int (streak_after 0 (take 2 [5, 0, 0])) < 2"
    by simp
  have reached: "?h \<noteq> [] \<and> (2::int) \<le> int (streak_after 0 (map snd ?h))" by simp
  from inst have "?h \<noteq> [] \<and> (2::int) \<le> int (streak_after 0 (map snd ?h)) \<longrightarrow>
      (None :: error option) = None \<and> days_processed ?s = length ?h
        \<and> run_days counting_step (map fst ?h) []
            = (map (\<lambda>p. Inr (snd p)) ?h, [739923, 739922, 739921])"
    by blast
  with reached have "days_processed ?s = length ?h
        \<and> run_days counting_step (map fst ?h) []
            = (map (\<lambda>p. Inr (snd p)) ?h, [739923, 739922, 739921])"
    by blast
  with k1 k2 show ?thesis
    by (simp add: walk_example processed_def)
qed

subsection \<open>The backfill job\<close>













subsection \<open>Row Builder\<close>

lemma row_core_make:
  "row_core \<lparr>location_id = a, location_name = b, reading_value = c, reading_datetime = d,
      created_at = e\<rparr> = (a, b, c, d)"
  by (simp add: row_core_def)

lemma rows_loop_spec:
  assumes "list_all (\<lambda>j. instant_ok (ts_sgt_at day j) \<and> instant_ok (ts_utc_at env day j))
             [i..<i + length items]"
  shows "\<exists>rows x'. rows_loop env loc (combine_midnight day) lmt i items x = (Inr rows, x')
       \<and> map row_core rows
           = map (\<lambda>(j, item). (ID loc, Name loc, reading_of env item,
                                utc_isoformat (ts_utc_at env day j)))
               (filter (\<lambda>(j, item). ts_utc_at env day j \<le> lmt) (enumerate i items))"
  using assms
proof (induction items arbitrary: i x)
  case Nil
  then show ?case by simp
next
  case (Cons item rest)
  from Cons.prems have here: "instant_ok (ts_sgt_at day i)" "instant_ok (ts_utc_at env day i)"
    and later: "list_all (\<lambda>j. instant_ok (ts_sgt_at day j) \<and> instant_ok (ts_utc_at env day j))
       [Suc i..<Suc i + length rest]"
    by (auto simp: list_all_iff)
  have a: "datetime_add (combine_midnight day) (int i * US_PER_MINUTE) = Inr (ts_sgt_at day i)"
    using here(1) by (simp add: datetime_add_def ts_sgt_at_def)
  have b: "SGT_astimezone_utc env (ts_sgt_at day i) = Inr (ts_utc_at env day i)"
    using here(2) by (simp add: SGT_astimezone_utc_def datetime_add_def ts_utc_at_def)
  show ?case
  proof (cases "ts_utc_at env day i > lmt")
    case True
    from Cons.IH[OF later, of x] True a b show ?thesis by simp
  next
    case False
    obtain stamp x1 where c: "utc_now env x = (stamp, x1)" by (cases "utc_now env x")
    from Cons.IH[OF later, of x1] obtain rows x' where r:
      "rows_loop env loc (combine_midnight day) lmt (Suc i) rest x1 = (Inr rows, x')"
      "map row_core rows
           = map (\<lambda>(j, item). (ID loc, Name loc, reading_of env item,
                                utc_isoformat (ts_utc_at env day j)))
               (filter (\<lambda>(j, item). ts_utc_at env day j \<le> lmt) (enumerate (Suc i) rest))"
      by blast
    from False a b c r show ?thesis by (simp add: row_core_make)
  qed
qed

lemma build_rows_list:
  assumes fetch: "try_fetch env (ext w) (url_of api_base loc day) = (Body (JArr items), x1)"
    and now: "instant_ok (fst (utc_now env x1) + US_PER_HOUR)"
    and rng: "entries_in_range env day (length items)"
  shows "\<exists>rows w'. build_rows env api_base loc day w = (Inr rows, w')
       \<and> warnings w' = warnings w \<and> calls w' = calls w
       \<and> map row_core rows
           = map (\<lambda>(j, item). (ID loc, Name loc, reading_of env item,
                                utc_isoformat (ts_utc_at env day j)))
               (filter (\<lambda>(j, item). ts_utc_at env day j \<le> fst (utc_now env x1) + US_PER_HOUR)
                  (enumerate 0 items))"
proof (cases "items = []")
  case True
  with fetch show ?thesis by (simp add: build_rows_def url_of_def)
next
  case False
  obtain nw x2 where c: "utc_now env x1 = (nw, x2)" by (cases "utc_now env x1")
  from rng have "list_all (\<lambda>j. instant_ok (ts_sgt_at day j) \<and> instant_ok (ts_utc_at env day j))
             [0..<0 + length items]"
    by (simp add: entries_in_range_def)
  from rows_loop_spec[OF this, of loc "nw + US_PER_HOUR" x2] obtain rows x' where r:
    "rows_loop env loc (combine_midnight day) (nw + US_PER_HOUR) 0 items x2 = (Inr rows, x')"
    "map row_core rows
           = map (\<lambda>(j, item). (ID loc, Name loc, reading_of env item,
                                utc_isoformat (ts_utc_at env day j)))
               (filter (\<lambda>(j, item). ts_utc_at env day j \<le> nw + US_PER_HOUR) (enumerate 0 items))"
    by blast
  from now c have d: "datetime_add nw US_PER_HOUR = Inr (nw + US_PER_HOUR)"
    by (simp add: datetime_add_def)
  from fetch False c d r show ?thesis
    by (simp add: build_rows_def url_of_def)
qed


lemma enumerate_nth: "enumerate 0 xs = map (\<lambda>j. (j, xs ! j)) [0..<length xs]"
  by (rule nth_equalityI) (simp_all add: nth_enumerate_eq)

lemma map_filter_enumerate:
  "map (\<lambda>(j, item). g j item) (filter (\<lambda>(j, item). P j) (enumerate 0 xs))
     = map (\<lambda>j. g j (xs ! j)) (filter P [0..<length xs])"
  by (simp add: enumerate_nth filter_map comp_def)

lemma build_rows_indexed:
  assumes fetch: "try_fetch env (ext w) (url_of api_base loc day) = (Body (JArr items), x1)"
    and now: "instant_ok (fst (utc_now env x1) + US_PER_HOUR)"
    and rng: "entries_in_range env day (length items)"
  shows "\<exists>rows w'. build_rows env api_base loc day w = (Inr rows, w')
       \<and> warnings w' = warnings w \<and> calls w' = calls w
       \<and> map row_core rows
           = map (\<lambda>j. (ID loc, Name loc, reading_of env (items ! j),
                        utc_isoformat (ts_utc_at env day j)))
               (filter (\<lambda>j. ts_utc_at env day j \<le> fst (utc_now env x1) + US_PER_HOUR)
                  [0..<length items])"
  using build_rows_list[OF fetch now rng]
  by (simp only: map_filter_enumerate[of "\<lambda>j item. (ID loc, Name loc, reading_of env item,
        utc_isoformat (ts_utc_at env day j))"])

lemma reading_unusable_None: "reading_unusable env item \<Longrightarrow> reading_of env item = None"
  by (auto simp: reading_unusable_def reading_of_def split: json.splits option.splits)

text \<open>
  C3. For every target day and every index \<open>i\<close> of the response list, the Row Builder
  derives the record's instant as local midnight of the day plus \<open>i\<close> minutes on the
  zone's clock face, less the zone's offset at that clock face, and stores its ISO text
  in UTC. Whenever the fetch returns a list and Python can represent the instants
  involved, \<open>build_rows\<close> returns normally and the \<open>reading_datetime\<close> of its records
  are these texts, in order, for the entries the future-guard keeps.
\<close>

theorem build_rows_instants:
  assumes fetch: "try_fetch env (ext w) (url_of api_base loc day) = (Body (JArr items), x1)"
    and now: "instant_ok (fst (utc_now env x1) + US_PER_HOUR)"
    and rng: "entries_in_range env day (length items)"
  shows "\<exists>rows w'. build_rows env api_base loc day w = (Inr rows, w')
       \<and> map reading_datetime rows
           = map (\<lambda>i. utc_isoformat
                        (combine_midnight day + int i * US_PER_MINUTE
                          - utcoffset env (combine_midnight day + int i * US_PER_MINUTE)))
               (filter (\<lambda>i. ts_utc_at env day i \<le> fst (utc_now env x1) + US_PER_HOUR)
                  [0..<length items])"
proof -
  from build_rows_indexed[OF fetch now rng] obtain rows w' where r:
    "build_rows env api_base loc day w = (Inr rows, w')"
    "map row_core rows
           = map (\<lambda>j. (ID loc, Name loc, reading_of env (items ! j),
                        utc_isoformat (ts_utc_at env day j)))
               (filter (\<lambda>j. ts_utc_at env day j \<le> fst (utc_now env x1) + US_PER_HOUR)
                  [0..<length items])"
    by blast
  have "map reading_datetime rows = map (\<lambda>c. snd (snd (snd c))) (map row_core rows)"
    by (simp add: row_core_def)
  also have "\<dots> = map (\<lambda>i. utc_isoformat (ts_utc_at env day i))
               (filter (\<lambda>i. ts_utc_at env day i \<le> fst (utc_now env x1) + US_PER_HOUR)
                  [0..<length items])"
    unfolding r(2) by simp
  finally show ?thesis using r(1) by (simp add: ts_utc_at_def ts_sgt_at_def)
qed

text \<open>
  C4. An entry whose reading is absent, null or not convertible to a float is not
  dropped: it yields a record with \<open>reading_value = None\<close>. The records correspond one
  to one, in order, to the entries the future-guard keeps, each with the reading of its
  entry, so the output is as long as the input less the entries the future-guard
  removed.
\<close>

theorem build_rows_keeps_null_readings:
  assumes fetch: "try_fetch env (ext w) (url_of api_base loc day) = (Body (JArr items), x1)"
    and now: "instant_ok (fst (utc_now env x1) + US_PER_HOUR)"
    and rng: "entries_in_range env day (length items)"
  shows "\<exists>rows w'. build_rows env api_base loc day w = (Inr rows, w')
       \<and> length rows
           + length (filter (\<lambda>i. ts_utc_at env day i > fst (utc_now env x1) + US_PER_HOUR)
                       [0..<length items])
           = length items
       \<and> map reading_value rows
           = map (\<lambda>i. reading_of env (items ! i))
               (filter (\<lambda>i. \<not> ts_utc_at env day i > fst (utc_now env x1) + US_PER_HOUR)
                  [0..<length items])
       \<and> (\<forall>i < length items. reading_unusable env (items ! i)
              \<longrightarrow> reading_of env (items ! i) = None)"
proof -
  let ?lim = "fst (utc_now env x1) + US_PER_HOUR"
  from build_rows_indexed[OF fetch now rng] obtain rows w' where r:
    "build_rows env api_base loc day w = (Inr rows, w')"
    "map row_core rows
           = map (\<lambda>j. (ID loc, Name loc, reading_of env (items ! j),
                        utc_isoformat (ts_utc_at env day j)))
               (filter (\<lambda>j. ts_utc_at env day j \<le> ?lim) [0..<length items])"
    by blast
  have keep: "(\<lambda>j. ts_utc_at env day j \<le> ?lim) = (\<lambda>i. \<not> ts_utc_at env day i > ?lim)"
    by (simp add: not_less)
  have "length rows = length (map row_core rows)" by simp
  also have "\<dots> = length (filter (\<lambda>i. \<not> ts_utc_at env day i > ?lim) [0..<length items])"
    unfolding r(2) keep by simp
  finally have len: "length rows
      + length (filter (\<lambda>i. ts_utc_at env day i > ?lim) [0..<length items]) = length items"
    using sum_length_filter_compl[of "\<lambda>i. ts_utc_at env day i > ?lim" "[0..<length items]"]
    by simp
  have "map reading_value rows = map (\<lambda>c. fst (snd (snd c))) (map row_core rows)"
    by (simp add: row_core_def)
  also have "\<dots> = map (\<lambda>i. reading_of env (items ! i))
               (filter (\<lambda>i. \<not> ts_utc_at env day i > ?lim) [0..<length items])"
    unfolding r(2) keep by simp
  finally have vals: "map reading_value rows = map (\<lambda>i. reading_of env (items ! i))
               (filter (\<lambda>i. \<not> ts_utc_at env day i > ?lim) [0..<length items])" .
  from r(1) len vals show ?thesis
    by (auto simp: reading_unusable_None)
qed

text \<open>
  C5. The future-guard. With \<open>now\<close> the clock reading of line 102, the output records
  are exactly the entries whose instant in UTC is at or before \<open>now + 1 hour\<close>, in
  order: every index whose instant is later is left out, every other index is kept.
\<close>

theorem build_rows_future_guard:
  assumes fetch: "try_fetch env (ext w) (url_of api_base loc day) = (Body (JArr items), x1)"
    and now: "instant_ok (fst (utc_now env x1) + US_PER_HOUR)"
    and rng: "entries_in_range env day (length items)"
  shows "\<exists>rows w' kept. build_rows env api_base loc day w = (Inr rows, w')
       \<and> kept = filter (\<lambda>i. \<not> ts_utc_at env day i > fst (utc_now env x1) + US_PER_HOUR)
                  [0..<length items]
       \<and> map row_core rows
           = map (\<lambda>i. (ID loc, Name loc, reading_of env (items ! i),
                        utc_isoformat (ts_utc_at env day i))) kept
       \<and> (\<forall>i < length items.
             (ts_utc_at env day i > fst (utc_now env x1) + US_PER_HOUR \<longrightarrow> i \<notin> set kept)
           \<and> (ts_utc_at env day i \<le> fst (utc_now env x1) + US_PER_HOUR \<longrightarrow> i \<in> set kept))"
proof -
  let ?lim = "fst (utc_now env x1) + US_PER_HOUR"
  have keep: "(\<lambda>j. ts_utc_at env day j \<le> ?lim) = (\<lambda>i. \<not> ts_utc_at env day i > ?lim)"
    by (simp add: not_less)
  from build_rows_indexed[OF fetch now rng] obtain rows w' where r:
    "build_rows env api_base loc day w = (Inr rows, w')"
    "map row_core rows
           = map (\<lambda>j. (ID loc, Name loc, reading_of env (items ! j),
                        utc_isoformat (ts_utc_at env day j)))
               (filter (\<lambda>i. \<not> ts_utc_at env day i > ?lim) [0..<length items])"
    unfolding keep by blast
  then show ?thesis by auto
qed


text \<open>Runs of the Row Builder in the scripted environment.\<close>

lemma iso_dates:
  "date_isoformat 738886 = ''2024-01-01''"
  "date_isoformat 738955 = ''2024-03-10''"
  by code_simp+

lemma scripted_ts_utc:
  "ts_utc_at (scripted_env api now) day i = ts_sgt_at day i - 8 * US_PER_HOUR"
  by (simp add: ts_utc_at_def scripted_env_def)

lemma scripted_fields:
  "requests_get (scripted_env api now) = (\<lambda>x url. (served (api url), x))"
  "utc_now (scripted_env api now) = (\<lambda>x. (now, x))"
  "float_of_str (scripted_env api now) = (\<lambda>s. if s = ''41.2'' then Some (206 / 5) else None)"
  by (simp_all add: scripted_env_def)

lemma new_year_fetch:
  "try_fetch (scripted_env new_year_api now) (ext empty_world)
     (url_of API_DEFAULT sports_school 738886) = (Body (JArr new_year_items), ())"
  by (simp add: try_fetch_def raise_for_status_def scripted_fields url_of_def iso_dates
      new_year_api_def sports_school_def)

lemma upt_3: "[0..<3] = [0, 1, 2]"
  by code_simp

lemma length_new_year: "length new_year_items = 3"
  by (simp add: new_year_items_def)

lemma new_year_range: "entries_in_range (scripted_env api now) 738886 (length new_year_items)"
  by (simp add: entries_in_range_def length_new_year upt_3 scripted_ts_utc ts_sgt_at_def
      instant_ok_def combine_midnight_def US_PER_DAY_def US_PER_HOUR_def US_PER_MINUTE_def
      MAXORDINAL_def)

lemma demo_now_ok: "instant_ok (fst (utc_now (scripted_env api demo_now) x) + US_PER_HOUR)"
  by (simp add: scripted_fields demo_now_def instant_ok_def combine_midnight_def
      US_PER_DAY_def US_PER_HOUR_def MAXORDINAL_def)

text \<open>
  Device 15490, day 2024-01-01, the API returns a reading of 41.2, a null and the text
  \<open>bad\<close>: three records, with the values 41.2, null and null.
\<close>

theorem build_rows_keeps_null_readings_witness:
  "\<exists>rows w'. build_rows (scripted_env new_year_api demo_now) API_DEFAULT sports_school 738886
        empty_world = (Inr rows, w')
     \<and> length rows = 3
     \<and> map reading_value rows = [Some (206 / 5), None, None]
     \<and> reading_unusable (scripted_env new_year_api demo_now) (JObj [(''reading'', JStr ''bad'')])"
proof -
  let ?env = "scripted_env new_year_api demo_now"
  let ?lim = "fst (utc_now ?env ()) + US_PER_HOUR"
  have kept: "filter (\<lambda>i. \<not> ts_utc_at ?env 738886 i > ?lim) [0..<length new_year_items]
      = [0, 1, 2]"
    by (simp add: length_new_year upt_3 scripted_ts_utc scripted_fields ts_sgt_at_def demo_now_def
        combine_midnight_def US_PER_DAY_def US_PER_HOUR_def US_PER_MINUTE_def)
  have gone: "filter (\<lambda>i. ts_utc_at ?env 738886 i > ?lim) [0..<length new_year_items] = []"
    by (simp add: length_new_year upt_3 scripted_ts_utc scripted_fields ts_sgt_at_def demo_now_def
        combine_midnight_def US_PER_DAY_def US_PER_HOUR_def US_PER_MINUTE_def)
  have vals: "map (\<lambda>i. reading_of ?env (new_year_items ! i)) [0, 1, 2]
      = [Some (206 / 5), None, None]"
    by (simp add: new_year_items_def reading_of_def scripted_fields)
  have bad: "reading_unusable ?env (JObj [(''reading'', JStr ''bad'')])"
    by (simp add: reading_unusable_def scripted_fields)
  from build_rows_keeps_null_readings[OF new_year_fetch demo_now_ok new_year_range]
  show ?thesis
    unfolding kept gone vals using bad by (auto simp: length_new_year)
qed


lemma early_now_ok: "instant_ok (fst (utc_now (scripted_env api early_now) x) + US_PER_HOUR)"
  by (simp add: scripted_fields early_now_def instant_ok_def combine_midnight_def
      US_PER_DAY_def US_PER_HOUR_def US_PER_MINUTE_def MAXORDINAL_def)

lemma new_year_stamps:
  "utc_isoformat (ts_sgt_at 738886 0 - 8 * US_PER_HOUR) = ''2023-12-31T16:00:00+00:00''"
  "utc_isoformat (ts_sgt_at 738886 (Suc 0) - 8 * US_PER_HOUR) = ''2023-12-31T16:01:00+00:00''"
  by code_simp+

text \<open>
  The same response built at 2023-12-31T15:01:00 UTC: the entries of 16:00 and 16:01
  UTC are kept, the entry of 16:02 UTC is more than an hour ahead and left out.
\<close>

theorem build_rows_future_guard_witness:
  "\<exists>rows w'. build_rows (scripted_env new_year_api early_now) API_DEFAULT sports_school 738886
        empty_world = (Inr rows, w')
     \<and> map row_core rows
         = [(''15490'', ''Singapore Sports School'', Some (206 / 5), ''2023-12-31T16:00:00+00:00''),
            (''15490'', ''Singapore Sports School'', None, ''2023-12-31T16:01:00+00:00'')]
     \<and> ts_utc_at (scripted_env new_year_api early_now) 738886 2 > early_now + US_PER_HOUR
     \<and> ts_utc_at (scripted_env new_year_api early_now) 738886 1 \<le> early_now + US_PER_HOUR"
proof -
  let ?env = "scripted_env new_year_api early_now"
  let ?lim = "fst (utc_now ?env ()) + US_PER_HOUR"
  have kept: "filter (\<lambda>i. \<not> ts_utc_at ?env 738886 i > ?lim) [0..<length new_year_items]
      = [0, 1]"
    by (simp add: length_new_year upt_3 scripted_ts_utc scripted_fields ts_sgt_at_def
        early_now_def combine_midnight_def US_PER_DAY_def US_PER_HOUR_def US_PER_MINUTE_def)
  have rows: "map (\<lambda>i. (ID sports_school, Name sports_school, reading_of ?env (new_year_items ! i),
        utc_isoformat (ts_utc_at ?env 738886 i))) [0, 1]
      = [(''15490'', ''Singapore Sports School'', Some (206 / 5), ''2023-12-31T16:00:00+00:00''),
         (''15490'', ''Singapore Sports School'', None, ''2023-12-31T16:01:00+00:00'')]"
    by (simp add: new_year_items_def reading_of_def sports_school_def scripted_ts_utc
        new_year_stamps)
  have late: "ts_utc_at ?env 738886 2 > early_now + US_PER_HOUR"
    "ts_utc_at ?env 738886 1 \<le> early_now + US_PER_HOUR"
    by (simp_all add: scripted_ts_utc ts_sgt_at_def
        early_now_def combine_midnight_def US_PER_DAY_def US_PER_HOUR_def US_PER_MINUTE_def)
  from build_rows_future_guard[OF new_year_fetch early_now_ok new_year_range]
  show ?thesis
    unfolding kept using rows late by auto
qed

lemma march_fetch:
  "try_fetch (scripted_env march_api now) (ext empty_world)
     (url_of API_DEFAULT sports_school 738955)
     = (Body (JArr (replicate 91 (JObj [(''reading'', JInt 50)]))), ())"
  by (simp add: try_fetch_def raise_for_status_def scripted_fields url_of_def iso_dates
      march_api_def sports_school_def)

lemma march_range: "entries_in_range (scripted_env api now) 738955 91"
  by (auto simp: entries_in_range_def list_all_iff scripted_ts_utc ts_sgt_at_def
      instant_ok_def combine_midnight_def US_PER_DAY_def US_PER_HOUR_def US_PER_MINUTE_def
      MAXORDINAL_def)

lemma march_stamps:
  "naive_isoformat (ts_sgt_at 738955 90) = ''2024-03-10T01:30:00''"
  "utc_isoformat (combine_midnight 738955 + int 90 * US_PER_MINUTE - 8 * US_PER_HOUR)
     = ''2024-03-09T17:30:00+00:00''"
  by code_simp+

text \<open>
  Day 2024-03-10 (ordinal 738955), index 90, in a zone at UTC+8: the local instant is
  2024-03-10T01:30:00 and the stored text is 2024-03-09T17:30:00+00:00.
\<close>

theorem build_rows_instants_witness:
  "\<exists>rows w'. build_rows (scripted_env march_api demo_now) API_DEFAULT sports_school 738955
        empty_world = (Inr rows, w')
     \<and> length rows = 91
     \<and> reading_datetime (rows ! 90) = ''2024-03-09T17:30:00+00:00''
     \<and> naive_isoformat (ts_sgt_at 738955 90) = ''2024-03-10T01:30:00''
     \<and> ymd2ord 2024 3 10 = 738955"
proof -
  let ?env = "scripted_env march_api demo_now"
  let ?lim = "fst (utc_now ?env ()) + US_PER_HOUR"
  let ?f = "\<lambda>i. utc_isoformat (combine_midnight 738955 + int i * US_PER_MINUTE
      - utcoffset ?env (combine_midnight 738955 + int i * US_PER_MINUTE))"
  have kept: "filter (\<lambda>i. ts_utc_at ?env 738955 i \<le> ?lim) [0..<91] = [0..<91]"
    by (rule filter_True)
      (auto simp: scripted_ts_utc scripted_fields ts_sgt_at_def demo_now_def
        combine_midnight_def US_PER_DAY_def US_PER_HOUR_def US_PER_MINUTE_def)
  have off: "utcoffset ?env = (\<lambda>t. 8 * US_PER_HOUR)" by (simp add: scripted_env_def)
  have rng: "entries_in_range ?env 738955 (length (replicate 91 (JObj [(''reading'', JInt 50)])))"
    using march_range by simp
  have "\<exists>rows w'. build_rows ?env API_DEFAULT sports_school 738955 empty_world = (Inr rows, w')
      \<and> map reading_datetime rows = map ?f [0..<91]"
    using build_rows_instants[OF march_fetch demo_now_ok rng]
    unfolding length_replicate kept .
  then obtain rows w' where r:
    "build_rows ?env API_DEFAULT sports_school 738955 empty_world = (Inr rows, w')"
    "map reading_datetime rows = map ?f [0..<91]"
    by (elim exE conjE)
  have "length (map reading_datetime rows) = length (map ?f [0..<91])"
    by (simp only: r(2))
  then have len: "length rows = 91" by simp
  have "reading_datetime (rows ! 90) = map reading_datetime rows ! 90"
    using len by simp
  also have "\<dots> = map ?f [0..<91] ! 90"
    by (simp only: r(2))
  also have "\<dots> = ?f 90" by simp
  also have "\<dots> = ''2024-03-09T17:30:00+00:00''"
    unfolding off using march_stamps(2) by simp
  finally show ?thesis using r(1) len march_stamps(1)
    by (simp add: ymd2ord_def days_before_year_def days_before_month_def DAYS_BEFORE_MONTH_def
        is_leap_def)
qed


subsection \<open>Upsert Writer\<close>

lemma chunk_count_pos:
  "0 < (m::nat) \<Longrightarrow> (m + 999) div 1000 = Suc ((m - 1000 + 999) div 1000)"
proof (cases "m < 1000")
  case True
  assume "0 < m"
  with True have "(m + 999) div 1000 = 1"
    by (intro div_nat_eqI) simp_all
  moreover from True have "(m - 1000 + 999) div 1000 = 0" by simp
  ultimately show ?thesis by simp
next
  case False
  then have "m + 999 = (m - 1000 + 999) + 1000" by simp
  moreover have "(m - 1000 + 999 + 1000) div 1000 = (m - 1000 + 999) div 1000 + 1"
    by (rule div_add_self2) simp
  ultimately show ?thesis by simp
qed

lemma chunk_count_step:
  "i < (n::nat) \<Longrightarrow>
     (n - i + (CHUNK - 1)) div CHUNK = Suc ((n - (i + CHUNK) + (CHUNK - 1)) div CHUNK)"
  using chunk_count_pos[of "n - i"]
  by (simp add: CHUNK_def diff_diff_left[symmetric] del: diff_diff_left)

lemma chunks_from_rec:
  "chunks_from i rows =
     (if i < length rows then take CHUNK (drop i rows) # chunks_from (i + CHUNK) rows else [])"
proof (cases "i < length rows")
  case False
  then show ?thesis by (simp add: chunks_from_def CHUNK_def)
next
  case True
  let ?k = "(length rows - (i + CHUNK) + (CHUNK - 1)) div CHUNK"
  let ?f = "\<lambda>k. take CHUNK (drop (i + k * CHUNK) rows)"
  have "chunks_from i rows = map ?f [0..<Suc ?k]"
    by (simp only: chunks_from_def chunk_count_step[OF True])
  also have "[0..<Suc ?k] = 0 # map Suc [0..<?k]"
    by (simp only: upt_conv_Cons zero_less_Suc if_True map_Suc_upt)
  also have "map ?f (0 # map Suc [0..<?k]) = ?f 0 # map (\<lambda>k. ?f (Suc k)) [0..<?k]"
    by (simp only: list.map map_map comp_def)
  also have "?f 0 = take CHUNK (drop i rows)" by simp
  also have "map (\<lambda>k. ?f (Suc k)) [0..<?k] = chunks_from (i + CHUNK) rows"
    by (simp add: chunks_from_def ac_simps)
  finally show ?thesis using True by simp
qed


declare upsert_loop.simps [simp del]

lemma upsert_loop_unfold:
  "upsert_loop env tbl rows i inserted w =
     (if i < length rows then
        (case execute env (ext w) (upsert_call_of tbl (take CHUNK (drop i rows))) of
           (Inl e, x1) \<Rightarrow>
             (Inl e, w\<lparr>ext := x1,
                calls := calls w @ [(upsert_call_of tbl (take CHUNK (drop i rows)), Inl e)]\<rparr>)
         | (Inr data, x1) \<Rightarrow>
             upsert_loop env tbl rows (i + CHUNK) (inserted + affected_of data)
               (w\<lparr>ext := x1,
                  calls := calls w @ [(upsert_call_of tbl (take CHUNK (drop i rows)), Inr data)]\<rparr>))
      else (Inr inserted, w))"
  by (subst upsert_loop.simps)
    (simp add: Let_def upsert_call_of_def split: prod.splits sum.splits resp_data.splits)

lemma exec_all_length:
  "exec_all env x cs = (map Inr ds, x') \<Longrightarrow> length ds = length cs"
proof (induction cs arbitrary: x ds)
  case Nil
  then show ?case by simp
next
  case (Cons c cs)
  obtain res x1 where ex: "execute env x c = (res, x1)" by (cases "execute env x c")
  show ?case
  proof (cases res)
    case (Inl e)
    with Cons.prems ex show ?thesis by (cases ds) simp_all
  next
    case (Inr d)
    obtain rs x2 where r: "exec_all env x1 cs = (rs, x2)" by (cases "exec_all env x1 cs")
    with Cons.prems ex Inr have "map Inr ds = Inr d # rs" "x2 = x'" by simp_all
    then obtain ds' where ds: "ds = d # ds'" "rs = map Inr ds'" by (cases ds) auto
    from Cons.IH[of x1 ds'] r ds \<open>x2 = x'\<close> have "length ds' = length cs" by simp
    with ds show ?thesis by simp
  qed
qed

lemma upsert_loop_exec:
  "exec_all env (ext w) (map (upsert_call_of tbl) (chunks_from i rows)) = (map Inr ds, x') \<Longrightarrow>
   upsert_loop env tbl rows i inserted w
     = (Inr (inserted + sum_list (map affected_of ds)),
        w\<lparr>ext := x',
          calls := calls w @ zip (map (upsert_call_of tbl) (chunks_from i rows)) (map Inr ds)\<rparr>)"
proof (induction "length rows - i" arbitrary: i inserted w ds rule: less_induct)
  case less
  show ?case
  proof (cases "i < length rows")
    case False
    then have cf: "chunks_from i rows = []" by (subst chunks_from_rec) simp
    with less.prems have "ds = []" "x' = ext w" by simp_all
    with False cf show ?thesis by (simp add: upsert_loop_unfold)
  next
    case True
    let ?c = "upsert_call_of tbl (take CHUNK (drop i rows))"
    have cf: "chunks_from i rows = take CHUNK (drop i rows) # chunks_from (i + CHUNK) rows"
      using True by (subst chunks_from_rec) simp
    obtain res x1 where ex: "execute env (ext w) ?c = (res, x1)"
      by (cases "execute env (ext w) ?c")
    show ?thesis
    proof (cases res)
      case (Inl e)
      with less.prems ex cf show ?thesis by (cases ds) simp_all
    next
      case (Inr d)
      let ?w1 = "w\<lparr>ext := x1, calls := calls w @ [(?c, Inr d)]\<rparr>"
      obtain rs x2 where r:
        "exec_all env x1 (map (upsert_call_of tbl) (chunks_from (i + CHUNK) rows)) = (rs, x2)"
        by (cases "exec_all env x1 (map (upsert_call_of tbl) (chunks_from (i + CHUNK) rows))")
      with less.prems ex Inr cf have "map Inr ds = Inr d # rs" "x2 = x'" by simp_all
      then obtain ds' where ds: "ds = d # ds'" "rs = map Inr ds'" by (cases ds) auto
      have lt: "length rows - (i + CHUNK) < length rows - i" using True by (simp add: CHUNK_def)
      have "exec_all env (ext ?w1) (map (upsert_call_of tbl) (chunks_from (i + CHUNK) rows))
          = (map Inr ds', x')"
        using r ds \<open>x2 = x'\<close> by simp
      from less.hyps[OF lt this, of "inserted + affected_of d"]
      have "upsert_loop env tbl rows (i + CHUNK) (inserted + affected_of d) ?w1
          = (Inr (inserted + affected_of d + sum_list (map affected_of ds')),
             ?w1\<lparr>ext := x',
               calls := calls ?w1
                 @ zip (map (upsert_call_of tbl) (chunks_from (i + CHUNK) rows)) (map Inr ds')\<rparr>)" .
      moreover have "upsert_loop env tbl rows i inserted w
          = upsert_loop env tbl rows (i + CHUNK) (inserted + affected_of d) ?w1"
        using True ex Inr by (subst upsert_loop_unfold) simp
      ultimately show ?thesis using ds cf by simp
    qed
  qed
qed

lemma chunks_nonempty: "c \<in> set (chunks rows) \<Longrightarrow> c \<noteq> []"
proof -
  assume "c \<in> set (chunks rows)"
  then obtain k where k: "k < (length rows + 999) div 1000" "c = take 1000 (drop (k * 1000) rows)"
    by (auto simp: chunks_def chunks_from_def CHUNK_def)
  from k(1) have "k * 1000 < length rows + 999 - 999"
    by (simp add: less_mult_imp_div_less div_less_iff_less_mult)
  with k(2) show ?thesis by simp
qed

lemma concat_chunks_from: "concat (chunks_from i rows) = drop i rows"
proof (induction "length rows - i" arbitrary: i rule: less_induct)
  case less
  show ?case
  proof (cases "i < length rows")
    case False
    then show ?thesis by (subst chunks_from_rec) simp
  next
    case True
    have "length rows - (i + CHUNK) < length rows - i" using True by (simp add: CHUNK_def)
    from less.hyps[OF this] have ih: "concat (chunks_from (i + CHUNK) rows) = drop (i + CHUNK) rows" .
    have cf: "chunks_from i rows = take CHUNK (drop i rows) # chunks_from (i + CHUNK) rows"
      using True by (subst chunks_from_rec) simp
    have dd: "drop (i + CHUNK) rows = drop CHUNK (drop i rows)"
      by (simp add: add.commute)
    have "concat (chunks_from i rows)
        = take CHUNK (drop i rows) @ concat (chunks_from (i + CHUNK) rows)"
      by (simp only: cf concat.simps)
    also have "\<dots> = take CHUNK (drop i rows) @ drop CHUNK (drop i rows)"
      by (simp only: ih dd)
    also have "\<dots> = drop i rows"
      by (rule append_take_drop_id)
    finally show ?thesis .
  qed
qed

lemma length_chunks: "length (chunks rows) = (length rows + 999) div 1000"
  by (simp add: chunks_def chunks_from_def CHUNK_def)

lemma chunk_le: "c \<in> set (chunks rows) \<Longrightarrow> length c \<le> 1000"
  by (auto simp: chunks_def chunks_from_def CHUNK_def)

lemma chunks_2500:
  assumes "length rows = 2500"
  shows "map length (chunks rows) = [1000, 1000, 500]"
proof -
  have "chunks rows = take CHUNK (drop 0 rows) # chunks_from 1000 rows"
    unfolding chunks_def using assms by (subst chunks_from_rec) (simp add: CHUNK_def)
  also have "chunks_from 1000 rows = take CHUNK (drop 1000 rows) # chunks_from 2000 rows"
    using assms by (subst chunks_from_rec) (simp add: CHUNK_def)
  also have "chunks_from 2000 rows = take CHUNK (drop 2000 rows) # chunks_from 3000 rows"
    using assms by (subst chunks_from_rec) (simp add: CHUNK_def)
  also have "chunks_from 3000 rows = []"
    using assms by (subst chunks_from_rec) simp
  finally show ?thesis using assms by (simp add: CHUNK_def)
qed

text \<open>
  C6. The Upsert Writer splits a batch into consecutive chunks of at most 1000 records
  and makes one store call per chunk. \<open>chunks rows\<close> is that partition: \<open>ceil(n / 1000)\<close>
  chunks, none empty, none longer than 1000, which concatenate to the batch; for 2500
  records they have 1000, 1000 and 500 records. If the store accepts the calls for
  these chunks, made in this order on the given table with conflict target
  \<open>location_id,reading_datetime\<close>, each from the state the call before left, and answers
  them with \<open>ds\<close>, then \<open>upsert_rows\<close> returns normally, it has made exactly these calls
  and no other (they are what it adds to the record of calls, and the store is left in
  the state the last of them left), and its result is the sum over \<open>ds\<close> of the number
  of rows reported (a response whose data is no list counts 0, line 149).
\<close>

theorem upsert_rows_chunked:
  assumes ok: "exec_all env (ext w) (map (upsert_call_of tbl) (chunks rows)) = (map Inr ds, x')"
  shows "upsert_rows env tbl rows w
           = (Inr (sum_list (map affected_of ds)),
              w\<lparr>ext := x',
                calls := calls w @ zip (map (upsert_call_of tbl) (chunks rows)) (map Inr ds)\<rparr>)
       \<and> length ds = length (chunks rows)
       \<and> length (chunks rows) = (length rows + 999) div 1000
       \<and> concat (chunks rows) = rows
       \<and> list_all (\<lambda>c. c \<noteq> [] \<and> length c \<le> 1000) (chunks rows)
       \<and> (length rows = 2500 \<longrightarrow> map length (chunks rows) = [1000, 1000, 500])"
proof -
  have a: "length (chunks rows) = (length rows + 999) div 1000"
    by (rule length_chunks)
  have b: "concat (chunks rows) = rows"
    by (simp add: chunks_def concat_chunks_from)
  have c: "list_all (\<lambda>c. c \<noteq> [] \<and> length c \<le> 1000) (chunks rows)"
    by (simp add: list_all_iff chunk_le chunks_nonempty)
  have d: "length rows = 2500 \<longrightarrow> map length (chunks rows) = [1000, 1000, 500]"
    by (simp add: chunks_2500)
  have l: "length ds = length (chunks rows)"
    using exec_all_length[OF ok] by simp
  have run: "upsert_rows env tbl rows w
           = (Inr (sum_list (map affected_of ds)),
              w\<lparr>ext := x',
                calls := calls w @ zip (map (upsert_call_of tbl) (chunks rows)) (map Inr ds)\<rparr>)"
  proof (cases "rows = []")
    case True
    then have e: "chunks rows = []"
      by (simp add: chunks_def chunks_from_def CHUNK_def)
    with ok have "ds = []" "x' = ext w" by simp_all
    with True e show ?thesis by (simp add: upsert_rows_def)
  next
    case False
    from upsert_loop_exec[of env w tbl 0 rows ds x' 0] ok
    have "upsert_loop env tbl rows 0 0 w
        = (Inr (sum_list (map affected_of ds)),
           w\<lparr>ext := x',
             calls := calls w @ zip (map (upsert_call_of tbl) (chunks rows)) (map Inr ds)\<rparr>)"
      by (simp add: chunks_def)
    with False show ?thesis by (simp add: upsert_rows_def)
  qed
  from run l a b c d show ?thesis by blast
qed

lemma chunks_demo:
  "chunks (replicate 2500 r) = [replicate 1000 r, replicate 1000 r, replicate 500 r]"
proof -
  let ?rows = "replicate 2500 r"
  have "chunks ?rows = take CHUNK (drop 0 ?rows) # chunks_from 1000 ?rows"
    unfolding chunks_def by (subst chunks_from_rec) (simp add: CHUNK_def)
  also have "chunks_from 1000 ?rows = take CHUNK (drop 1000 ?rows) # chunks_from 2000 ?rows"
    by (subst chunks_from_rec) (simp add: CHUNK_def)
  also have "chunks_from 2000 ?rows = take CHUNK (drop 2000 ?rows) # chunks_from 3000 ?rows"
    by (subst chunks_from_rec) (simp add: CHUNK_def)
  also have "chunks_from 3000 ?rows = []"
    by (subst chunks_from_rec) simp
  finally show ?thesis by (simp add: CHUNK_def)
qed

text \<open>
  2500 copies of one record, written to an empty store that keeps what it is sent and
  reports the rows of full chunks only: three calls of 1000, 1000 and 500 records, the
  store holds the 2500 records afterwards, and the result is 1000 + 1000 + 0.
\<close>

theorem upsert_rows_chunked_witness:
  "upsert_rows store_env ''meter_readings'' (replicate 2500 demo_row)
      \<lparr>ext = [], warnings = [], calls = []\<rparr>
     = (Inr 2000,
        \<lparr>ext = replicate 2500 demo_row, warnings = [],
         calls = [(upsert_call_of ''meter_readings'' (replicate 1000 demo_row),
                     Inr (DataList (replicate 1000 demo_row))),
                  (upsert_call_of ''meter_readings'' (replicate 1000 demo_row),
                     Inr (DataList (replicate 1000 demo_row))),
                  (upsert_call_of ''meter_readings'' (replicate 500 demo_row),
                     Inr DataOther)]\<rparr>)
   \<and> map length (chunks (replicate 2500 demo_row)) = [1000, 1000, 500]"
proof -
  let ?w = "\<lparr>ext = [], warnings = [], calls = []\<rparr> :: (rat row list, rat) world"
  let ?ds = "[DataList (replicate 1000 demo_row), DataList (replicate 1000 demo_row), DataOther]"
  have r: "replicate 1000 demo_row @ replicate 1000 demo_row @ replicate 500 demo_row
      = replicate 2500 demo_row"
    by (simp add: replicate_add[symmetric])
  have ok: "exec_all store_env (ext ?w)
      (map (upsert_call_of ''meter_readings'') (chunks (replicate 2500 demo_row)))
      = (map Inr ?ds, replicate 2500 demo_row)"
    by (simp add: chunks_demo store_env_def upsert_call_of_def r)
  from upsert_rows_chunked[OF ok] show ?thesis
    by (simp add: chunks_demo)
qed

text \<open>
  C8. Called with an empty batch, the Upsert Writer returns 0 and leaves the world as
  it was: the state of the external systems is the same and no store call is recorded.
\<close>

theorem upsert_rows_empty: "upsert_rows env tbl [] w = (Inr 0, w)"
  by (simp add: upsert_rows_def)

subsection \<open>The horizon of the backfill job\<close>

lemma main_run:
  assumes "backfill_main env environ w = (r, lg, w')"
  shows "(lg = [] \<and> r \<noteq> None
          \<and> (w' = w \<or> w' = w\<lparr>ext := snd (yesterday_sgt env (snd (today_sgt env (ext w))))\<rparr>))
    \<or> (\<exists>t y end_day s.
        empty_chunks_to_stop_of env environ = Inr t
      \<and> max_years_of env environ = Inr y
      \<and> fst (yesterday_sgt env (snd (today_sgt env (ext w)))) = Inr end_day
      \<and> walk (day_step env (rstrip_slash (getenv environ ''API_BASE_URL'' API_DEFAULT))
                 (getenv environ ''SUPABASE_TABLE'' ''meter_readings''))
           t (fst (today_sgt env (ext w)) - 365 * y)
           (initial_state end_day [LogStarting end_day (fst (today_sgt env (ext w)) - 365 * y) t])
           (w\<lparr>ext := snd (yesterday_sgt env (snd (today_sgt env (ext w))))\<rparr>) = (r, s, w')
      \<and> (lg = out s \<or> lg = out s @ [LogComplete (days_processed s) (total_affected s)]))"
  using assms
  by (auto simp: backfill_main_def Let_def date_sub_def
      split: sum.splits option.splits prod.splits if_splits)

text \<open>
  A walk whose day steps all affect the same positive number of rows goes all the way:
  it processes every day from \<open>cur\<close> down to \<open>stop_before\<close> and returns normally.
\<close>

lemma walk_to_horizon:
  assumes step: "\<And>d w. sb \<le> d \<Longrightarrow> d \<le> c \<Longrightarrow> \<exists>w1. step d w = (Inr a, w1)"
    and a: "0 < a" and t: "0 < t" and sb: "1 < sb" and c: "c \<le> MAXORDINAL"
  shows "cur s \<le> c \<Longrightarrow> n = nat (cur s - sb + 1) \<Longrightarrow>
     \<exists>s' w'. walk step t sb s w = (None, s', w')
       \<and> processed (out s') = processed (out s) @ map (\<lambda>d. (d, a)) (days_back (cur s) n)
       \<and> days_processed s' = days_processed s + n"
proof (induction n arbitrary: s w)
  case 0
  then have "\<not> cur s \<ge> sb" by simp
  then show ?case by (simp add: walk_unfold days_back_0)
next
  case (Suc n)
  then have ge: "cur s \<ge> sb" by simp
  from step[OF ge Suc.prems(1)] obtain w1 where st: "step (cur s) w = (Inr a, w1)" by blast
  let ?s3 = "record_day t s a"
  have streak: "\<not> int (empty_streak ?s3) \<ge> t" using a t by (simp add: streak_record_day)
  have ds: "date_sub (cur s) 1 = Inr (cur s - 1)"
    using ge sb c Suc.prems(1) by (simp add: date_sub_def date_ok_def)
  have unf: "walk step t sb s w = walk step t sb (?s3\<lparr>cur := cur s - 1\<rparr>) w1"
    using ge st streak ds by (subst walk_unfold) simp
  have "cur (?s3\<lparr>cur := cur s - 1\<rparr>) \<le> c" using Suc.prems(1) by simp
  moreover have "n = nat (cur (?s3\<lparr>cur := cur s - 1\<rparr>) - sb + 1)" using Suc.prems(2) by simp
  ultimately obtain s' w' where r:
    "walk step t sb (?s3\<lparr>cur := cur s - 1\<rparr>) w1 = (None, s', w')"
    "processed (out s') = processed (out (?s3\<lparr>cur := cur s - 1\<rparr>))
        @ map (\<lambda>d. (d, a)) (days_back (cur (?s3\<lparr>cur := cur s - 1\<rparr>)) n)"
    "days_processed s' = days_processed (?s3\<lparr>cur := cur s - 1\<rparr>) + n"
    using Suc.IH by blast
  have p3: "processed (out ?s3) = processed (out s) @ [(cur s, a)]"
    using a by (simp add: record_day_def processed_def)
  have d3: "days_processed ?s3 = days_processed s + 1" by (simp add: record_day_def)
  from r p3 d3 unf show ?case
    by (simp add: days_back_Suc)
qed

lemma steady_row:
  assumes "739559 \<le> d" "d \<le> 739923"
  shows "\<exists>row. build_rows horizon_env b loc d w = (Inr [row], w)"
  using assms
  by (simp add: build_rows_def try_fetch_def raise_for_status_def horizon_env_def
      scripted_env_def steady_api_def datetime_add_def instant_ok_def combine_midnight_def
      demo_now_def US_PER_DAY_def US_PER_HOUR_def US_PER_MINUTE_def MAXORDINAL_def
      SGT_astimezone_utc_def)

lemma steady_rows:
  assumes "739559 \<le> d" "d \<le> 739923"
  shows "\<exists>rows. collect_rows horizon_env b locs d w = (Inr rows, w) \<and> length rows = length locs"
proof (induction locs)
  case Nil
  then show ?case by simp
next
  case (Cons loc locs)
  from steady_row[OF assms] obtain row where r: "build_rows horizon_env b loc d w = (Inr [row], w)"
    by blast
  from Cons obtain rows where rs: "collect_rows horizon_env b locs d w = (Inr rows, w)"
    "length rows = length locs" by blast
  have id: "w\<lparr>ext := ()\<rparr> = w" by (cases w) simp
  from r rs show ?case by (simp add: id)
qed

lemma steady_day:
  assumes "739559 \<le> d" "d \<le> 739923"
  shows "\<exists>w1. day_step horizon_env b tbl d w = (Inr 13, w1)"
proof -
  from steady_rows[OF assms] obtain rows where rs:
    "collect_rows horizon_env b LOCATIONS d w = (Inr rows, w)" "length rows = length LOCATIONS"
    by blast
  have n: "length rows = 13" using rs(2) by (simp add: LOCATIONS_def)
  then have ne: "rows \<noteq> []" by auto
  have ex: "execute horizon_env = (\<lambda>x c. (Inr (DataList (payload c)), x))"
    by (simp add: horizon_env_def scripted_env_def)
  have "upsert_rows horizon_env tbl rows w
      = (Inr 13, w\<lparr>calls := calls w @ [(upsert_call_of tbl rows, Inr (DataList rows))]\<rparr>)"
    unfolding upsert_rows_def using ne n
    apply simp
    apply (subst upsert_loop_unfold)
    apply (simp add: ex CHUNK_def upsert_call_of_def)
    apply (subst upsert_loop_unfold)
    apply (simp add: CHUNK_def)
    done
  with rs(1) show ?thesis by (simp add: day_step_def)
qed

lemma horizon_run:
  "\<exists>lg w'. backfill_main horizon_env horizon_environ empty_world = (None, lg, w')
     \<and> processed lg = map (\<lambda>d. (d, 13)) (days_back 739923 365)"
proof -
  have params: "empty_chunks_to_stop_of horizon_env horizon_environ = Inr 100"
    "max_years_of horizon_env horizon_environ = Inr 1"
    by (simp_all add: empty_chunks_to_stop_of_def max_years_of_def getenv_def
        horizon_environ_def horizon_env_def scripted_env_def)
  have creds: "environ_get horizon_environ ''SUPABASE_URL'' = Inr ''https://example.supabase.co''"
    "environ_get horizon_environ ''SUPABASE_ANON_KEY'' = Inr ''key''"
    by (simp_all add: environ_get_def horizon_environ_def)
  have cc: "create_client horizon_env = (\<lambda>url key. None)"
    by (simp add: horizon_env_def scripted_env_def)
  have today: "today_sgt horizon_env x = (739924, x)" for x
    by (simp add: today_sgt_def horizon_env_def scripted_env_def demo_now_def date_of_def
        combine_midnight_def US_PER_DAY_def US_PER_HOUR_def)
  let ?step = "day_step horizon_env (rstrip_slash (getenv horizon_environ ''API_BASE_URL'' API_DEFAULT))
                 (getenv horizon_environ ''SUPABASE_TABLE'' ''meter_readings'')"
  let ?s0 = "initial_state 739923 [LogStarting 739923 739559 100]"
  have "\<exists>s' w'. walk ?step 100 739559 ?s0 empty_world = (None, s', w')
       \<and> processed (out s') = processed (out ?s0) @ map (\<lambda>d. (d, 13)) (days_back (cur ?s0) 365)
       \<and> days_processed s' = days_processed ?s0 + 365"
  proof (rule walk_to_horizon[where c = 739923])
    show "\<exists>w1. ?step d w = (Inr 13, w1)" if "739559 \<le> d" "d \<le> 739923" for d w
      using steady_day[OF that] .
  qed (simp_all add: MAXORDINAL_def initial_state_def)
  then obtain s' w' where r: "walk ?step 100 739559 ?s0 empty_world = (None, s', w')"
    "processed (out s') = map (\<lambda>d. (d, 13)) (days_back 739923 365)"
    by (auto simp: initial_state_def processed_def)
  have "backfill_main horizon_env horizon_environ empty_world
      = (None, out s' @ [LogComplete (days_processed s') (total_affected s')], w')"
    using r(1)
    by (simp add: backfill_main_def params creds cc yesterday_sgt_def today empty_world_def
        date_sub_def date_ok_def MAXORDINAL_def)
  moreover have "processed (out s' @ [LogComplete (days_processed s') (total_affected s')])
      = map (\<lambda>d. (d, 13)) (days_back 739923 365)"
    using r(2) by (simp add: processed_append processed_def)
  ultimately show ?thesis by blast
qed

lemma days_back_bound:
  "list_all (\<lambda>d. sb \<le> d) (days_back e n) \<Longrightarrow> int n \<le> max 0 (e - sb + 1)"
proof (cases n)
  case 0
  then show ?thesis by simp
next
  case (Suc m)
  assume "list_all (\<lambda>d. sb \<le> d) (days_back e n)"
  then have "sb \<le> e - int m" using Suc by (simp add: days_back_def)
  with Suc show ?thesis by simp
qed

text \<open>
  C2. The backfill job never walks past its horizon. \<open>backfill_main\<close> is a total
  function: its loop is defined by recursion on the distance from \<open>cur\<close> to
  \<open>stop_before\<close>, which shrinks with every day, so every run ends. Let \<open>today\<close> be the
  date in the zone read at the start of the run, \<open>e\<close> the start day \<open>yesterday_sgt()\<close>
  returned and \<open>stop_before\<close> the day \<open>365 * max_years\<close> days before \<open>today\<close> (line 46
  counts a year as 365 days). Then, whatever the threshold and the affected counts:

  \<^item> either the run raised before its loop: the log is empty and nothing but the clock
    was touched;
  \<^item> or the day steps the run performed are those of the days \<open>e\<close>, \<open>e - 1\<close>, ..., \<open>n\<close> of
    them, every one between \<open>stop_before\<close> and \<open>e\<close>, so \<open>n\<close> is at most the length of
    that range; the state the run leaves is the state these day steps left, run one after
    another from the state after the two readings of the clock; and the logged days are
    these days in this order, all of them or, when the step of the last one raised and
    the job with it, all but that one.

  So no day before \<open>stop_before\<close> is fetched, built, upserted or logged, whether or not
  the empty streak ever reached the threshold.
\<close>

theorem backfill_stops_at_horizon:
  assumes run: "backfill_main env environ w = (r, lg, w')"
    and y: "max_years_of env environ = Inr y"
    and e: "fst (yesterday_sgt env (snd (today_sgt env (ext w)))) = Inr e"
  shows "(lg = [] \<and> r \<noteq> None
          \<and> (w' = w \<or> w' = w\<lparr>ext := snd (yesterday_sgt env (snd (today_sgt env (ext w))))\<rparr>))
    \<or> (\<exists>n rest.
          list_all (\<lambda>d. fst (today_sgt env (ext w)) - 365 * y \<le> d \<and> d \<le> e) (days_back e n)
        \<and> int n \<le> max 0 (e - (fst (today_sgt env (ext w)) - 365 * y) + 1)
        \<and> run_days
            (day_step env (rstrip_slash (getenv environ ''API_BASE_URL'' API_DEFAULT))
               (getenv environ ''SUPABASE_TABLE'' ''meter_readings''))
            (days_back e n)
            (w\<lparr>ext := snd (yesterday_sgt env (snd (today_sgt env (ext w))))\<rparr>)
           = (map (\<lambda>p. Inr (snd p)) (processed lg) @ rest, w')
        \<and> (rest = [] \<and> n = length (processed lg)
            \<or> (\<exists>err. rest = [Inl err] \<and> r = Some err \<and> n = Suc (length (processed lg))))
        \<and> map fst (processed lg) = days_back e (length (processed lg)))"
proof -
  let ?sb = "fst (today_sgt env (ext w)) - 365 * y"
  let ?x = "snd (yesterday_sgt env (snd (today_sgt env (ext w))))"
  let ?step = "day_step env (rstrip_slash (getenv environ ''API_BASE_URL'' API_DEFAULT))
               (getenv environ ''SUPABASE_TABLE'' ''meter_readings'')"
  from main_run[OF run] consider
      (failed) "lg = [] \<and> r \<noteq> None \<and> (w' = w \<or> w' = w\<lparr>ext := ?x\<rparr>)"
    | (walked) "\<exists>t y0 e0 s.
          empty_chunks_to_stop_of env environ = Inr t
        \<and> max_years_of env environ = Inr y0
        \<and> fst (yesterday_sgt env (snd (today_sgt env (ext w)))) = Inr e0
        \<and> walk ?step t (fst (today_sgt env (ext w)) - 365 * y0)
             (initial_state e0 [LogStarting e0 (fst (today_sgt env (ext w)) - 365 * y0) t])
             (w\<lparr>ext := ?x\<rparr>) = (r, s, w')
        \<and> (lg = out s \<or> lg = out s @ [LogComplete (days_processed s) (total_affected s)])"
    by blast
  then show ?thesis
  proof cases
    case failed
    then show ?thesis by blast
  next
    case walked
    then obtain t y0 e0 s where p: "max_years_of env environ = Inr y0"
      "fst (yesterday_sgt env (snd (today_sgt env (ext w)))) = Inr e0"
      "walk ?step t (fst (today_sgt env (ext w)) - 365 * y0)
         (initial_state e0 [LogStarting e0 (fst (today_sgt env (ext w)) - 365 * y0) t])
         (w\<lparr>ext := ?x\<rparr>) = (r, s, w')"
      "lg = out s \<or> lg = out s @ [LogComplete (days_processed s) (total_affected s)]"
      by blast
    from p(1) y have y0: "y0 = y" by simp
    from p(2) e have e0: "e0 = e" by simp
    let ?s0 = "initial_state e [LogStarting e ?sb t]"
    have wk: "walk ?step t ?sb ?s0 (w\<lparr>ext := ?x\<rparr>) = (r, s, w')"
      using p(3) unfolding y0 e0 .
    from walk_run[OF wk] obtain evs rest n where q:
      "out s = out ?s0 @ evs"
      "list_all (\<lambda>d. ?sb \<le> d) (days_back (cur ?s0) n)"
      "run_days ?step (days_back (cur ?s0) n) (w\<lparr>ext := ?x\<rparr>)
         = (map (\<lambda>p. Inr (snd p)) (processed evs) @ rest, w')"
      "rest = [] \<and> n = length (processed evs)
         \<or> (\<exists>err. rest = [Inl err] \<and> r = Some err \<and> n = Suc (length (processed evs)))"
      by blast
    have c: "cur ?s0 = e" by (simp add: initial_state_def)
    from p(4) q(1) have pl: "processed lg = processed evs"
      by (auto simp: processed_def initial_state_def)
    from walk_out[OF wk] obtain evs2 where q2:
      "out s = out ?s0 @ evs2" "backward_from (cur ?s0) (processed evs2)"
      by blast
    from q2(1) q(1) have "evs2 = evs" by simp
    with q2(2) c have "backward_from e (processed lg)" using pl by simp
    from backward_from_map[OF this]
    have days: "map fst (processed lg) = days_back e (length (processed lg))"
      by (simp add: days_back_def)
    have up: "list_all (\<lambda>d. d \<le> e) (days_back e n)"
      by (simp add: days_back_def list_all_iff)
    from q(2) c have lo: "list_all (\<lambda>d. ?sb \<le> d) (days_back e n)" by simp
    from lo up have both: "list_all (\<lambda>d. ?sb \<le> d \<and> d \<le> e) (days_back e n)"
      by (simp add: list_all_iff)
    from days_back_bound[OF lo] have bound: "int n \<le> max 0 (e - ?sb + 1)" .
    from q(3) c pl have rd: "run_days ?step (days_back e n) (w\<lparr>ext := ?x\<rparr>)
         = (map (\<lambda>p. Inr (snd p)) (processed lg) @ rest, w')" by simp
    from q(4) pl have ends: "rest = [] \<and> n = length (processed lg)
         \<or> (\<exists>err. rest = [Inl err] \<and> r = Some err \<and> n = Suc (length (processed lg)))"
      by simp
    from both bound rd ends days show ?thesis by blast
  qed
qed

lemma last_days_back: "0 < n \<Longrightarrow> last (days_back e n) = e - int (n - 1)"
  by (simp add: days_back_def last_map)

text \<open>
  A run on 2026-11-04 with threshold 100 and one year, against an API that has a
  reading for every device and day: the empty streak never leaves 0, the run returns
  normally after the 365 days from 2026-11-03 back to 2025-11-04 (ordinal 739559, the
  365th day before today), and what it logged and left is what the day steps of these
  365 days return and leave.
\<close>

theorem backfill_stops_at_horizon_witness:
  "fst (backfill_main horizon_env horizon_environ empty_world) = None
   \<and> map fst (processed (fst (snd (backfill_main horizon_env horizon_environ empty_world))))
       = days_back 739923 365
   \<and> list_all (\<lambda>d. 739924 - 365 * 1 \<le> d \<and> d \<le> 739923) (days_back 739923 365)
   \<and> last (days_back 739923 365) = 739924 - 365 * 1
   \<and> fst (run_days (day_step horizon_env API_DEFAULT ''meter_readings'')
        (days_back 739923 365) empty_world)
       = map (\<lambda>p. Inr (snd p))
           (processed (fst (snd (backfill_main horizon_env horizon_environ empty_world))))
   \<and> snd (run_days (day_step horizon_env API_DEFAULT ''meter_readings'')
        (days_back 739923 365) empty_world)
       = snd (snd (backfill_main horizon_env horizon_environ empty_world))"
proof -
  let ?m = "backfill_main horizon_env horizon_environ empty_world"
  have eq: "?m = (fst ?m, fst (snd ?m), snd (snd ?m))" by simp
  from horizon_run have r: "fst ?m = None"
    and pl: "processed (fst (snd ?m)) = map (\<lambda>d. (d, 13)) (days_back 739923 365)"
    by auto
  have len: "length (processed (fst (snd ?m))) = 365"
    unfolding pl by (simp add: days_back_def)
  have y: "max_years_of horizon_env horizon_environ = Inr 1"
    by (simp add: max_years_of_def getenv_def horizon_environ_def horizon_env_def
        scripted_env_def)
  have today: "today_sgt horizon_env x = (739924, x)" for x
    by (simp add: today_sgt_def horizon_env_def scripted_env_def demo_now_def date_of_def
        combine_midnight_def US_PER_DAY_def US_PER_HOUR_def)
  have e: "fst (yesterday_sgt horizon_env (snd (today_sgt horizon_env (ext empty_world))))
      = Inr 739923"
    by (simp add: yesterday_sgt_def today date_sub_def date_ok_def MAXORDINAL_def)
  have ne: "fst (snd ?m) \<noteq> []" using len by (auto simp: processed_def)
  have api: "rstrip_slash (getenv horizon_environ ''API_BASE_URL'' API_DEFAULT) = API_DEFAULT"
    by (simp add: getenv_def horizon_environ_def rstrip_slash_def API_DEFAULT_def)
  have tbl: "getenv horizon_environ ''SUPABASE_TABLE'' ''meter_readings'' = ''meter_readings''"
    by (simp add: getenv_def horizon_environ_def)
  have id: "empty_world\<lparr>ext := x\<rparr> = empty_world" for x
    by (simp add: empty_world_def)
  from backfill_stops_at_horizon[OF eq y e] ne r obtain n rest where p:
    "list_all (\<lambda>d. 739924 - 365 * 1 \<le> d \<and> d \<le> 739923) (days_back 739923 n)"
    "run_days (day_step horizon_env API_DEFAULT ''meter_readings'') (days_back 739923 n)
        empty_world
       = (map (\<lambda>p. Inr (snd p)) (processed (fst (snd ?m))) @ rest, snd (snd ?m))"
    "rest = [] \<and> n = length (processed (fst (snd ?m)))"
    "map fst (processed (fst (snd ?m))) = days_back 739923 (length (processed (fst (snd ?m))))"
    unfolding today api tbl id by auto
  from p(3) len have n: "n = 365" "rest = []" by simp_all
  have l: "last (days_back 739923 365) = 739924 - 365 * 1"
    by (simp add: last_days_back)
  from p(1,2,4) r l show ?thesis unfolding n len by simp
qed

end
